theory Spec2Isabelle
  imports Main
begin

section \<open>Aborts\<close>

text \<open>
  The sources stop the compiler in several places instead of returning: a failed
  \<^verbatim>\<open>assert\<close>, \<^verbatim>\<open>llvm_unreachable\<close>, or an index past the end of an array.
  Each of these is a value of \<open>abort\<close>, so that every such exit is a branch of the model.
\<close>

datatype abort =
    UnsupportedSairOp            \<comment> \<open>\<^verbatim>\<open>llvm_unreachable("unsupported sair op")\<close>\<close>
  | InvalidLoopNestAttribute     \<comment> \<open>\<^verbatim>\<open>assert(... && "invalid loop_nest attribute")\<close>\<close>
  | DependsOnMissingDimension    \<comment> \<open>\<^verbatim>\<open>assert(... "rematerialized dimension depends on a dimension missing from loop_nest attribute")\<close>\<close>
  | DimensionOfRematIterator     \<comment> \<open>\<^verbatim>\<open>Dimension()\<close> asked of a rematerialize iterator\<close>
  | CopyNotOneResult             \<comment> \<open>\<^verbatim>\<open>assert(result_types.size() == 1)\<close>\<close>
  | DropPastEnd                  \<comment> \<open>\<^verbatim>\<open>drop_front\<close> of more elements than an array has\<close>
  | IndexOutOfRange              \<comment> \<open>\<^verbatim>\<open>operator[]\<close> past the end\<close>
  | OpNotInSequenceAnalysis      \<comment> \<open>\<^verbatim>\<open>assert(... && "op not in sequence analysis")\<close>\<close>
  | EmptySetVector               \<comment> \<open>\<^verbatim>\<open>back()\<close> or \<^verbatim>\<open>pop_back()\<close> of an empty \<^verbatim>\<open>llvm::SetVector\<close>\<close>

section \<open>ConcreteOpSet\<close>

text \<open>
  \<^verbatim>\<open>ConcreteOpSet<OpTy>\<close> wraps an \<^verbatim>\<open>llvm::SetVector<Operation *>\<close>, which keeps a set
  (for membership) beside a vector (for the order). An \<^verbatim>\<open>Operation *\<close> is a natural number.
\<close>

record SetVector =
  sv_set :: "nat set"
  sv_vector :: "nat list"

record ConcreteOpSet =
  contents :: SetVector

definition SetVector_empty :: SetVector where
  "SetVector_empty = \<lparr>sv_set = {}, sv_vector = []\<rparr>"

text \<open>\<^verbatim>\<open>bool result = set_.insert(X).second; if (result) vector_.push_back(X); return result;\<close>\<close>

definition SetVector_insert :: "nat \<Rightarrow> SetVector \<Rightarrow> bool \<times> SetVector" where
  "SetVector_insert X s =
     (let result = (X \<notin> sv_set s);
          s1 = s\<lparr>sv_set := insert X (sv_set s)\<rparr>
      in if result then (True, s1\<lparr>sv_vector := sv_vector s1 @ [X]\<rparr>) else (False, s1))"

text \<open>
  \<^verbatim>\<open>if (set_.erase(X)) { I = find(vector_, X); vector_.erase(I); return true; } return false;\<close>
\<close>

definition SetVector_remove :: "nat \<Rightarrow> SetVector \<Rightarrow> bool \<times> SetVector" where
  "SetVector_remove X s =
     (if X \<in> sv_set s
      then (True, \<lparr>sv_set = sv_set s - {X}, sv_vector = remove1 X (sv_vector s)\<rparr>)
      else (False, s))"

definition ConcreteOpSet_empty :: ConcreteOpSet where
  "ConcreteOpSet_empty = \<lparr>contents = SetVector_empty\<rparr>"

definition ConcreteOpSet_insert :: "nat \<Rightarrow> ConcreteOpSet \<Rightarrow> bool \<times> ConcreteOpSet" where
  "ConcreteOpSet_insert op s =
     (case SetVector_insert op (contents s) of (r, c) \<Rightarrow> (r, s\<lparr>contents := c\<rparr>))"

text \<open>The range insert and \<^verbatim>\<open>merge\<close>: one \<^verbatim>\<open>insert\<close> per element, in order.\<close>

definition ConcreteOpSet_insert_range :: "nat list \<Rightarrow> ConcreteOpSet \<Rightarrow> ConcreteOpSet" where
  "ConcreteOpSet_insert_range xs s = fold (\<lambda>x t. snd (ConcreteOpSet_insert x t)) xs s"

definition is_empty :: "ConcreteOpSet \<Rightarrow> bool" where
  "is_empty s = (sv_vector (contents s) = [])"

definition size_ops :: "ConcreteOpSet \<Rightarrow> nat" where
  "size_ops s = length (sv_vector (contents s))"

definition contains :: "ConcreteOpSet \<Rightarrow> nat \<Rightarrow> bool" where
  "contains s op = (op \<in> sv_set (contents s))"

definition Ops :: "ConcreteOpSet \<Rightarrow> nat list" where
  "Ops s = sv_vector (contents s)"

definition merge_ops :: "ConcreteOpSet \<Rightarrow> ConcreteOpSet \<Rightarrow> ConcreteOpSet" where
  "merge_ops s other = ConcreteOpSet_insert_range (Ops other) s"

definition back_val :: "ConcreteOpSet \<Rightarrow> abort + nat" where
  "back_val s = (if sv_vector (contents s) = [] then Inl EmptySetVector
             else Inr (last (sv_vector (contents s))))"

definition pop_back_val :: "ConcreteOpSet \<Rightarrow> abort + (nat \<times> ConcreteOpSet)" where
  "pop_back_val s =
     (case back_val s of
        Inl a \<Rightarrow> Inl a
      | Inr ret \<Rightarrow>
          Inr (ret, s\<lparr>contents := \<lparr>sv_set = sv_set (contents s) - {ret},
                                      sv_vector = butlast (sv_vector (contents s))\<rparr>\<rparr>))"

definition erase :: "nat \<Rightarrow> ConcreteOpSet \<Rightarrow> ConcreteOpSet" where
  "erase op s = s\<lparr>contents := snd (SetVector_remove op (contents s))\<rparr>"

text \<open>
  The representation invariant of \<^verbatim>\<open>llvm::SetVector\<close>: the set holds what the vector
  holds, and the vector holds nothing twice.
\<close>

definition opset_inv :: "ConcreteOpSet \<Rightarrow> bool" where
  "opset_inv s = (sv_set (contents s) = set (sv_vector (contents s)) \<and> distinct (sv_vector (contents s)))"

text \<open>Each element once, at the place of its first occurrence.\<close>

fun first_occurrences :: "nat list \<Rightarrow> nat list" where
  "first_occurrences [] = []"
| "first_occurrences (x # xs) = x # filter (\<lambda>y. y \<noteq> x) (first_occurrences xs)"

section \<open>The IR: attributes, types, operations\<close>

text \<open>
  Values. A domain dimension is an \<^verbatim>\<open>mlir::Value\<close> of range type; the operands and results
  that carry data are of Sair value type. The two kinds of value never mix (the
  operations declare their operand types), so they are two types here: a range is an
  opaque handle, and a data value is a result of an operation of the program or a value
  defined outside of it.
\<close>

type_synonym range_value = nat

datatype val =
    OpResult nat nat      \<comment> \<open>operation, result number\<close>
  | Outside nat

text \<open>\<^verbatim>\<open>IteratorAttr\<close>: the rematerialize marker, or a dimension and a step.\<close>

datatype iterator =
    Remat
  | Iter nat int

text \<open>\<^verbatim>\<open>LoopAttr\<close>: a loop name and its iterator.\<close>

record loop =
  name :: string
  iter :: iterator

text \<open>\<^verbatim>\<open>IteratorAttr::Rematerialize()\<close>, \<^verbatim>\<open>Dimension()\<close> and \<^verbatim>\<open>Step()\<close>.\<close>

fun iter_Rematerialize :: "iterator \<Rightarrow> bool" where
  "iter_Rematerialize Remat = True"
| "iter_Rematerialize (Iter d s) = False"

fun iter_Dimension :: "iterator \<Rightarrow> abort + nat" where
  "iter_Dimension Remat = Inl DimensionOfRematIterator"
| "iter_Dimension (Iter d s) = Inr d"

text \<open>\<^verbatim>\<open>AccessPatternAttr\<close>: the size of the use domain, and the accessed dimensions.\<close>

record access_pattern =
  use_domain_size :: nat
  dimensions :: "nat list"

text \<open>
  \<^verbatim>\<open>RangeType\<close> carries a domain shape; a \<^verbatim>\<open>DomainShapeDim\<close> is a range type and a
  dependency pattern; a \<^verbatim>\<open>DomainShapeAttr\<close> is a list of them.
\<close>

datatype range_type = RangeType (Shape_of_range: "(range_type \<times> access_pattern) list")

type_synonym DomainShapeDim = "range_type \<times> access_pattern"

type_synonym DomainShapeAttr = "DomainShapeDim list"

definition dim_type :: "DomainShapeDim \<Rightarrow> range_type" where
  "dim_type d = fst d"

definition dependency_pattern :: "DomainShapeDim \<Rightarrow> access_pattern" where
  "dependency_pattern d = snd d"

text \<open>\<^verbatim>\<open>ValueType\<close>: a shape and an element type (a name).\<close>

record value_type =
  Shape :: DomainShapeAttr
  ElementType :: string

text \<open>The body of a map or map-reduce: the block's argument types and its operations.\<close>

datatype arg_type =
    IndexType
  | ScalarType string

record block =
  arguments :: "arg_type list"
  block_ops :: nat

datatype op_kind =
    SairCopyOp
  | SairMapOp
  | SairMapReduceOp
  | SairProjAnyOp
  | SairFbyOp

text \<open>
  An operation. \<open>other_domain\<close> is the reduction domain of a map-reduce and the projection
  domain of a projection; copy and map have none. \<open>inputs\<close> is the value of a copy or of
  a projection, and the inputs of a map or map-reduce.
\<close>

record operation =
  op_id :: nat
  kind :: op_kind
  parallel_domain :: "range_value list"
  other_domain :: "range_value list"
  shape :: DomainShapeAttr
  access_pattern_array :: "access_pattern list"
  inits :: "val list"
  inputs :: "val list"
  loop_nest :: "loop list option"
  memory_space :: "int option list option"
  result_types :: "value_type list"
  body :: "block option"

text \<open>The body of a \<^verbatim>\<open>sair.program\<close>, in program order.\<close>

type_synonym program = "operation list"

definition domain :: "operation \<Rightarrow> range_value list" where
  "domain op = parallel_domain op @ other_domain op"

text \<open>
  Modelled from the spec: \<^verbatim>\<open>LoopNestLoops()\<close> belongs to the op interfaces, which are not
  in the sources. The loop nest is an optional attribute; its loops are the entries of the
  attribute, none when it is absent.
\<close>

definition LoopNestLoops :: "operation \<Rightarrow> loop list" where
  "LoopNestLoops op = (case loop_nest op of None \<Rightarrow> [] | Some ls \<Rightarrow> ls)"

text \<open>
  Modelled from the spec: \<^verbatim>\<open>GetMemorySpace(i)\<close> belongs to the op interfaces, which are not
  in the sources: the memory space annotated on result \<open>i\<close>, if any.
\<close>

definition GetMemorySpace :: "operation \<Rightarrow> nat \<Rightarrow> int option" where
  "GetMemorySpace op i =
     (case memory_space op of
        None \<Rightarrow> None
      | Some ms \<Rightarrow> if i < length ms then ms ! i else None)"

text \<open>
  Modelled from the spec: the attribute helpers below are defined with the attributes,
  which are not in the sources.
  \<^item> \<^verbatim>\<open>ShiftRight(offset, start_from)\<close>: the comment of \<^verbatim>\<open>AdaptAccessPatterns\<close> says it
    shifts all the accessed dimensions starting from \<^verbatim>\<open>insert_pos\<close> right by
    \<^verbatim>\<open>num_dims\<close>, reflecting \<^verbatim>\<open>num_dims\<close> dimensions inserted into the domain; the use
    domain grows by as many dimensions.
  \<^item> \<^verbatim>\<open>DependencyMask()\<close>: the dimensions a dependency pattern references, as the set bits
    of a bit vector, which are enumerated in increasing order, each once.
  \<^item> \<^verbatim>\<open>HyperRectangular(rank)\<close>: a shape of \<open>rank\<close> dimensions none of which depends on
    another.
  \<^item> \<^verbatim>\<open>Prefix(n)\<close>: the first \<open>n\<close> dimensions of a shape.
  \<^item> \<^verbatim>\<open>GetIdentity(n)\<close>: the access pattern that maps each of \<open>n\<close> dimensions to itself.
\<close>

definition ShiftRight :: "nat \<Rightarrow> nat \<Rightarrow> access_pattern \<Rightarrow> access_pattern" where
  "ShiftRight offset start_from p =
     \<lparr>use_domain_size = use_domain_size p + offset,
      dimensions = map (\<lambda>d. if d < start_from then d else d + offset) (dimensions p)\<rparr>"

definition DependencyMask :: "DomainShapeDim \<Rightarrow> nat list" where
  "DependencyMask d = sort (remdups (dimensions (dependency_pattern d)))"

definition HyperRectangular :: "nat \<Rightarrow> DomainShapeAttr" where
  "HyperRectangular rank =
     map (\<lambda>i. (RangeType [], \<lparr>use_domain_size = i, dimensions = []\<rparr>)) [0..<rank]"

definition Prefix :: "nat \<Rightarrow> DomainShapeAttr \<Rightarrow> DomainShapeAttr" where
  "Prefix n s = take n s"

definition GetIdentity :: "nat \<Rightarrow> access_pattern" where
  "GetIdentity n = \<lparr>use_domain_size = n, dimensions = [0..<n]\<rparr>"

section \<open>Changing the program\<close>

text \<open>
  A created operation gets an identity no operation of the program has. The builder's
  insertion point is set before the operation being replaced and stays there, so every
  created operation goes right before that operation, after those created earlier.
\<close>

definition fresh_id :: "program \<Rightarrow> nat" where
  "fresh_id p = Suc (fold max (map op_id p) 0)"

fun insert_before :: "nat \<Rightarrow> operation \<Rightarrow> program \<Rightarrow> program" where
  "insert_before oid new [] = []"
| "insert_before oid new (x # xs) =
     (if op_id x = oid then new # x # xs else x # insert_before oid new xs)"

definition replace_value :: "val \<Rightarrow> val \<Rightarrow> val \<Rightarrow> val" where
  "replace_value old new v = (if v = old then new else v)"

definition replaceAllUsesWith :: "val \<Rightarrow> val \<Rightarrow> program \<Rightarrow> program" where
  "replaceAllUsesWith old new p =
     map (\<lambda>x. x\<lparr>inits := map (replace_value old new) (inits x),
                inputs := map (replace_value old new) (inputs x)\<rparr>) p"

definition erase_operation :: "nat \<Rightarrow> program \<Rightarrow> program" where
  "erase_operation oid p = filter (\<lambda>x. op_id x \<noteq> oid) p"

text \<open>The uses of a value: the operand places of the program that hold it.\<close>

definition uses_value :: "operation \<Rightarrow> val \<Rightarrow> bool" where
  "uses_value x v = (v \<in> set (inits x) \<or> v \<in> set (inputs x))"

section \<open>Rematerialization\<close>

text \<open>
  \<^verbatim>\<open>LoopBounds\<close>: the range and the step of a loop, and the names of the loops its bounds
  depend on. \<^verbatim>\<open>main_loops\<close> is a \<^verbatim>\<open>DenseMap\<close> from loop names to bounds.
\<close>

record LoopBounds =
  range_b :: range_value
  step_b :: int
  dependent_on :: "string list"

type_synonym main_loops = "string \<Rightarrow> LoopBounds option"

text \<open>
  What a call gives back: \<^verbatim>\<open>mlir::success()\<close>, \<^verbatim>\<open>mlir::failure()\<close>, or the compiler
  stopped inside the call.
\<close>

datatype result =
    Success
  | Failure
  | Aborted abort

fun map_abort :: "('a \<Rightarrow> abort + 'b) \<Rightarrow> 'a list \<Rightarrow> abort + 'b list" where
  "map_abort f [] = Inr []"
| "map_abort f (x # xs) =
     (case f x of
        Inl a \<Rightarrow> Inl a
      | Inr y \<Rightarrow> (case map_abort f xs of Inl a \<Rightarrow> Inl a | Inr ys \<Rightarrow> Inr (y # ys)))"

definition AdaptTypesToShape :: "value_type list \<Rightarrow> DomainShapeAttr \<Rightarrow> value_type list" where
  "AdaptTypesToShape types sh = map (\<lambda>t. \<lparr>Shape = sh, ElementType = ElementType t\<rparr>) types"

definition AdaptAccessPatterns :: "access_pattern list \<Rightarrow> nat \<Rightarrow> nat \<Rightarrow> access_pattern list" where
  "AdaptAccessPatterns arr insert_pos num_dims = map (ShiftRight num_dims insert_pos) arr"

text \<open>
  \<^verbatim>\<open>TakeBodyAdjustArguments\<close>: the target takes the body of the source, and \<open>num\<close> index
  arguments are inserted at \<open>pos\<close>. (The source is left without its body; it is erased
  at the end of \<^verbatim>\<open>Rematerialize\<close>.)
\<close>

definition TakeBodyAdjustArguments :: "block option \<Rightarrow> nat \<Rightarrow> nat \<Rightarrow> block option" where
  "TakeBodyAdjustArguments source_body pos num =
     map_option (\<lambda>b. b\<lparr>arguments := take pos (arguments b) @ replicate num IndexType
                                        @ drop pos (arguments b)\<rparr>) source_body"

text \<open>
  \<^verbatim>\<open>RecreateOp\<close>, one overload per kind, behind the \<^verbatim>\<open>TypeSwitch\<close> of \<^verbatim>\<open>Rematerialize\<close>:
  \<open>Inr None\<close> is the null pointer of the \<^verbatim>\<open>Default\<close> case. The copy builder takes no
  shape: a copy's shape is that of its result type.
\<close>

definition RecreateOp ::
  "nat \<Rightarrow> operation \<Rightarrow> value_type list \<Rightarrow> range_value list \<Rightarrow> loop list \<Rightarrow> DomainShapeAttr
   \<Rightarrow> abort + operation option" where
  "RecreateOp new_id op result_tys extra_domain loop_nest_attr domain_shape =
     (case kind op of
        SairCopyOp \<Rightarrow>
          if length result_tys \<noteq> 1 then Inl CopyNotOneResult
          else Inr (Some
            \<lparr>op_id = new_id, kind = SairCopyOp,
             parallel_domain = domain op @ extra_domain, other_domain = [],
             shape = Shape (result_tys ! 0),
             access_pattern_array = access_pattern_array op,
             inits = [], inputs = inputs op,
             loop_nest = Some loop_nest_attr, memory_space = memory_space op,
             result_types = [result_tys ! 0], body = None\<rparr>)
      | SairMapOp \<Rightarrow>
          Inr (Some
            \<lparr>op_id = new_id, kind = SairMapOp,
             parallel_domain = domain op @ extra_domain, other_domain = [],
             shape = domain_shape,
             access_pattern_array = access_pattern_array op,
             inits = [], inputs = inputs op,
             loop_nest = Some loop_nest_attr, memory_space = memory_space op,
             result_types = result_tys,
             body = TakeBodyAdjustArguments (body op) (length (domain op)) (length extra_domain)\<rparr>)
      | SairMapReduceOp \<Rightarrow>
          Inr (Some
            \<lparr>op_id = new_id, kind = SairMapReduceOp,
             parallel_domain = parallel_domain op @ extra_domain,
             other_domain = other_domain op,
             shape = domain_shape,
             access_pattern_array =
               AdaptAccessPatterns (access_pattern_array op) (length (parallel_domain op))
                 (length extra_domain),
             inits = inits op, inputs = inputs op,
             loop_nest = Some loop_nest_attr, memory_space = memory_space op,
             result_types = result_tys,
             body = TakeBodyAdjustArguments (body op) (length (parallel_domain op))
                      (length extra_domain)\<rparr>)
      | SairProjAnyOp \<Rightarrow> Inr None
      | SairFbyOp \<Rightarrow> Inr None)"

definition ParallelDomain :: "operation \<Rightarrow> abort + range_value list" where
  "ParallelDomain op =
     (case kind op of
        SairCopyOp \<Rightarrow> Inr (domain op)
      | SairMapOp \<Rightarrow> Inr (domain op)
      | SairMapReduceOp \<Rightarrow> Inr (parallel_domain op)
      | SairProjAnyOp \<Rightarrow> Inl UnsupportedSairOp
      | SairFbyOp \<Rightarrow> Inl UnsupportedSairOp)"

text \<open>
  The first sweep of \<^verbatim>\<open>Rematerialize\<close> over the loop nest (the loop that rebuilds the loop
  nest attribute): a materialized entry whose dimension is at or past
  \<open>num_parallel_dims\<close> moves right by \<open>num_remat\<close>; an entry to rematerialize looks its
  bounds up, adds the range to the extra domain and takes the next position.
\<close>

fun rebuild_loop_nest ::
  "main_loops \<Rightarrow> nat \<Rightarrow> nat \<Rightarrow> nat \<Rightarrow> loop list \<Rightarrow> abort + (loop list \<times> range_value list)" where
  "rebuild_loop_nest ml num_parallel_dims num_remat position [] = Inr ([], [])"
| "rebuild_loop_nest ml num_parallel_dims num_remat position (l # ls) =
     (case iter l of
        Iter d s \<Rightarrow>
          (case rebuild_loop_nest ml num_parallel_dims num_remat position ls of
             Inl a \<Rightarrow> Inl a
           | Inr (ls', extra) \<Rightarrow>
               Inr ((if d \<ge> num_parallel_dims
                     then \<lparr>name = name l, iter = Iter (d + num_remat) s\<rparr> else l) # ls', extra))
      | Remat \<Rightarrow>
          (case ml (name l) of
             None \<Rightarrow> Inl InvalidLoopNestAttribute
           | Some bounds \<Rightarrow>
               (case rebuild_loop_nest ml num_parallel_dims num_remat (Suc position) ls of
                  Inl a \<Rightarrow> Inl a
                | Inr (ls', extra) \<Rightarrow>
                    Inr (\<lparr>name = name l, iter = Iter position (step_b bounds)\<rparr> # ls',
                         range_b bounds # extra))))"

text \<open>
  The second sweep, over the rematerialized loops: the shape dimension of each, whose
  dependency pattern lists, for each loop its bounds depend on, the dimension of the first
  entry of that name in the rebuilt loop nest.
\<close>

definition dependee_dimension :: "loop list \<Rightarrow> string \<Rightarrow> abort + nat" where
  "dependee_dimension loop_nest_array dependee =
     (case find (\<lambda>attr. name attr = dependee) loop_nest_array of
        None \<Rightarrow> Inl DependsOnMissingDimension
      | Some l \<Rightarrow> iter_Dimension (iter l))"

definition inserted_dim :: "main_loops \<Rightarrow> loop list \<Rightarrow> range_type \<Rightarrow> nat \<Rightarrow> abort + DomainShapeDim" where
  "inserted_dim ml loop_nest_array inner_range_type loop_idx =
     (let l = loop_nest_array ! loop_idx in
      case ml (name l) of
        None \<Rightarrow> Inl InvalidLoopNestAttribute
      | Some bounds \<Rightarrow>
          (case map_abort (dependee_dimension loop_nest_array) (dependent_on bounds) of
             Inl a \<Rightarrow> Inl a
           | Inr deps \<Rightarrow>
               (case iter_Dimension (iter l) of
                  Inl a \<Rightarrow> Inl a
                | Inr d \<Rightarrow> Inr (inner_range_type, \<lparr>use_domain_size = d, dimensions = deps\<rparr>))))"

text \<open>
  What \<^verbatim>\<open>Rematerialize\<close> computes before it creates anything: the parallel domain, the
  rebuilt loop nest, the extra domain, the new domain shape and the new result types.
\<close>

record rebuilt =
  r_parallel_domain :: "range_value list"
  r_loop_nest_array :: "loop list"
  r_extra_domain :: "range_value list"
  r_domain_shape :: DomainShapeAttr
  r_new_types :: "value_type list"

definition rebuild_attributes :: "main_loops \<Rightarrow> operation \<Rightarrow> abort + rebuilt" where
  "rebuild_attributes ml op =
     (case ParallelDomain op of
        Inl a \<Rightarrow> Inl a
      | Inr par_domain \<Rightarrow>
          (let num_parallel_dims = length par_domain;
               loops = filter (\<lambda>i. iter_Rematerialize (iter (LoopNestLoops op ! i)))
                         [0..<length (LoopNestLoops op)];
               num_remat = length loops
           in case rebuild_loop_nest ml num_parallel_dims num_remat num_parallel_dims
                     (LoopNestLoops op) of
                Inl a \<Rightarrow> Inl a
              | Inr (loop_nest_array, extra_domain) \<Rightarrow>
                  (let orig_dims = shape op;
                       num_orig_dims = length orig_dims;
                       inner_range_type = RangeType (HyperRectangular (num_orig_dims + num_remat))
                   in case map_abort (inserted_dim ml loop_nest_array inner_range_type) loops of
                        Inl a \<Rightarrow> Inl a
                      | Inr inserted \<Rightarrow>
                          if num_orig_dims < num_parallel_dims then Inl DropPastEnd else
                          (let domain_shape =
                                 take num_parallel_dims orig_dims @ inserted
                                 @ map (\<lambda>dim. (inner_range_type,
                                         ShiftRight num_remat num_parallel_dims (dependency_pattern dim)))
                                     (drop num_parallel_dims orig_dims);
                               result_shape = Prefix (num_parallel_dims + num_remat) domain_shape
                           in Inr \<lparr>r_parallel_domain = par_domain,
                                   r_loop_nest_array = loop_nest_array,
                                   r_extra_domain = extra_domain,
                                   r_domain_shape = domain_shape,
                                   r_new_types = AdaptTypesToShape (result_types op) result_shape\<rparr>))))"

text \<open>
  One round of the loop that projects the rematerialized dimensions out of result \<open>i\<close>:
  the projection is created, given the memory space of the original result if it has one,
  and every use of the original result is redirected to the projection's result.

  Modelled from the spec: \<^verbatim>\<open>SetMemorySpace\<close> belongs to the op interfaces, which are not in
  the sources; the spec says the original per-result memory space is reattached to the
  projection's result.
\<close>

definition make_projection :: "operation \<Rightarrow> nat \<Rightarrow> rebuilt \<Rightarrow> nat \<Rightarrow> nat \<Rightarrow> operation" where
  "make_projection op new_id r proj_id i =
     \<lparr>op_id = proj_id, kind = SairProjAnyOp,
      parallel_domain = r_parallel_domain r, other_domain = r_extra_domain r,
      shape = Shape (r_new_types r ! i),
      access_pattern_array =
        [GetIdentity (length (r_parallel_domain r) + length (r_extra_domain r))],
      inits = [], inputs = [OpResult new_id i],
      loop_nest = None,
      memory_space = (case GetMemorySpace op i of None \<Rightarrow> None | Some m \<Rightarrow> Some [Some m]),
      result_types = [result_types op ! i], body = None\<rparr>"

definition project_result ::
  "operation \<Rightarrow> nat \<Rightarrow> rebuilt \<Rightarrow> nat \<Rightarrow> program \<Rightarrow> program" where
  "project_result op new_id r i p =
     (let proj_op = make_projection op new_id r (fresh_id p) i
      in replaceAllUsesWith (OpResult (op_id op) i) (OpResult (op_id proj_op) 0)
           (insert_before (op_id op) proj_op p))"

definition Rematerialize :: "main_loops \<Rightarrow> operation \<Rightarrow> program \<Rightarrow> result \<times> program" where
  "Rematerialize ml op p =
     (case rebuild_attributes ml op of
        Inl a \<Rightarrow> (Aborted a, p)
      | Inr r \<Rightarrow>
          (case RecreateOp (fresh_id p) op (r_new_types r) (r_extra_domain r)
                  (r_loop_nest_array r) (r_domain_shape r) of
             Inl a \<Rightarrow> (Aborted a, p)
           | Inr None \<Rightarrow> (Failure, p)
           | Inr (Some new_operation) \<Rightarrow>
               (Success,
                erase_operation (op_id op)
                  (fold (project_result op (op_id new_operation) r) [0..<length (r_new_types r)]
                     (insert_before (op_id op) new_operation p)))))"

section \<open>Collecting the loop bounds\<close>

text \<open>
  The walk of \<^verbatim>\<open>RematerializeInProgram\<close> over the compute operations of the program, which
  fills \<^verbatim>\<open>main_loops\<close> (\<^verbatim>\<open>try_emplace\<close> keeps an entry that is already there) and the set of
  pending operations (a \<^verbatim>\<open>DenseSet\<close>; the list here holds every operation once, and its
  order stands for the unspecified order of the set).
\<close>

definition nth_or_abort :: "'a list \<Rightarrow> nat \<Rightarrow> abort + 'a" where
  "nth_or_abort xs i = (if i < length xs then Inr (xs ! i) else Inl IndexOutOfRange)"

definition try_emplace :: "string \<Rightarrow> LoopBounds \<Rightarrow> main_loops \<Rightarrow> main_loops" where
  "try_emplace k v ml = (case ml k of None \<Rightarrow> ml(k \<mapsto> v) | Some b \<Rightarrow> ml)"

definition pending_insert :: "nat \<Rightarrow> nat list \<Rightarrow> nat list" where
  "pending_insert x xs = (if x \<in> set xs then xs else xs @ [x])"

definition collect_loop ::
  "operation \<Rightarrow> loop \<Rightarrow> main_loops \<times> nat list \<Rightarrow> abort + (main_loops \<times> nat list)" where
  "collect_loop cop l st =
     (case iter l of
        Remat \<Rightarrow> Inr (fst st, pending_insert (op_id cop) (snd st))
      | Iter dimension s \<Rightarrow>
          (case nth_or_abort (domain cop) dimension of
             Inl a \<Rightarrow> Inl a
           | Inr rng \<Rightarrow>
               (case nth_or_abort (shape cop) dimension of
                  Inl a \<Rightarrow> Inl a
                | Inr dim \<Rightarrow>
                    (case map_abort
                            (\<lambda>bit_idx. case nth_or_abort (LoopNestLoops cop) bit_idx of
                                          Inl a \<Rightarrow> Inl a | Inr la \<Rightarrow> Inr (name la))
                            (DependencyMask dim) of
                       Inl a \<Rightarrow> Inl a
                     | Inr depends_on \<Rightarrow>
                         Inr (try_emplace (name l)
                                \<lparr>range_b = rng, step_b = s, dependent_on = depends_on\<rparr> (fst st),
                              snd st)))))"

fun collect_loops ::
  "operation \<Rightarrow> loop list \<Rightarrow> main_loops \<times> nat list \<Rightarrow> abort + (main_loops \<times> nat list)" where
  "collect_loops cop [] st = Inr st"
| "collect_loops cop (l # ls) st =
     (case collect_loop cop l st of Inl a \<Rightarrow> Inl a | Inr st' \<Rightarrow> collect_loops cop ls st')"

definition collect_op ::
  "operation \<Rightarrow> main_loops \<times> nat list \<Rightarrow> abort + (main_loops \<times> nat list)" where
  "collect_op cop st =
     (case loop_nest cop of None \<Rightarrow> Inr st | Some ls \<Rightarrow> collect_loops cop ls st)"

fun collect_walk ::
  "program \<Rightarrow> main_loops \<times> nat list \<Rightarrow> abort + (main_loops \<times> nat list)" where
  "collect_walk [] st = Inr st"
| "collect_walk (cop # rest) st =
     (case collect_op cop st of Inl a \<Rightarrow> Inl a | Inr st' \<Rightarrow> collect_walk rest st')"

definition CollectLoopBounds :: "program \<Rightarrow> abort + (main_loops \<times> nat list)" where
  "CollectLoopBounds p = collect_walk p (Map.empty, [])"

section \<open>Notions the statements use\<close>

text \<open>The number of entries to rematerialize before entry \<open>i\<close> of a loop nest.\<close>

definition remat_before :: "loop list \<Rightarrow> nat \<Rightarrow> nat" where
  "remat_before ln i = length (filter (\<lambda>l. iter_Rematerialize (iter l)) (take i ln))"

text \<open>
  Redirecting the uses of the first \<open>n\<close> results of operation \<open>oid\<close>: a use of result
  \<open>i\<close> becomes a use of the only result of operation \<open>first_proj + i\<close>; every other
  operand stays.
\<close>

definition redirect_value :: "nat \<Rightarrow> nat \<Rightarrow> nat \<Rightarrow> val \<Rightarrow> val" where
  "redirect_value oid first_proj n v =
     (case v of
        OpResult o1 i \<Rightarrow> if o1 = oid \<and> i < n then OpResult (first_proj + i) 0 else v
      | Outside k \<Rightarrow> v)"

definition redirect_uses :: "nat \<Rightarrow> nat \<Rightarrow> nat \<Rightarrow> operation \<Rightarrow> operation" where
  "redirect_uses oid first_proj n x =
     x\<lparr>inits := map (redirect_value oid first_proj n) (inits x),
       inputs := map (redirect_value oid first_proj n) (inputs x)\<rparr>"

text \<open>The loops that iterate over the given dimensions, as the loop nest binds them.\<close>

definition loops_of_dimensions :: "loop list \<Rightarrow> nat list \<Rightarrow> string list" where
  "loops_of_dimensions ln ds =
     map name (filter (\<lambda>l. case iter l of Remat \<Rightarrow> False | Iter d s \<Rightarrow> d \<in> set ds) ln)"


section \<open>SequenceAnalysis: the ordered index\<close>

text \<open>
  \<^verbatim>\<open>MapType = std::multimap<int64_t, ComputeOp>\<close>: the entries in iteration order, which is
  by increasing key, entries of one key in the order they were put in. A \<^verbatim>\<open>ComputeOp\<close>
  handle is \<open>None\<close> when null and \<open>Some\<close> of the operation otherwise; an iterator is an
  index in the list, \<^verbatim>\<open>begin()\<close> is 0 and \<^verbatim>\<open>end()\<close> is the length.
\<close>

type_synonym MapType = "(int \<times> nat) list"

record SequenceAnalysis =
  sequenced_ops :: MapType
  fby_ops_to_cut :: "nat list"

text \<open>
  Modelled from the spec: \<^verbatim>\<open>FindSequencedOp\<close> is only declared in the header; its body is
  not in the sources. The declaration's comment says it returns the iterator pointing to
  the given op in the sequence map, and the callers compare the result with \<^verbatim>\<open>end()\<close>.
\<close>

definition FindSequencedOp :: "SequenceAnalysis \<Rightarrow> nat \<Rightarrow> nat" where
  "FindSequencedOp sa op = length (takeWhile (\<lambda>e. snd e \<noteq> op) (sequenced_ops sa))"

definition PrevOp :: "SequenceAnalysis \<Rightarrow> nat option \<Rightarrow> abort + nat option" where
  "PrevOp sa op =
     (case op of
        None \<Rightarrow> Inr None
      | Some o1 \<Rightarrow>
          (let iter = FindSequencedOp sa o1 in
           if iter = length (sequenced_ops sa) then Inl OpNotInSequenceAnalysis
           else if iter = 0 then Inr None
           else Inr (Some (snd (sequenced_ops sa ! (iter - 1))))))"

definition NextOp :: "SequenceAnalysis \<Rightarrow> nat option \<Rightarrow> abort + nat option" where
  "NextOp sa op =
     (case op of
        None \<Rightarrow> Inr None
      | Some o1 \<Rightarrow>
          (let iter = FindSequencedOp sa o1 in
           if iter = length (sequenced_ops sa) then Inl OpNotInSequenceAnalysis
           else if Suc iter = length (sequenced_ops sa) then Inr None
           else Inr (Some (snd (sequenced_ops sa ! Suc iter)))))"

section \<open>SequenceAnalysis: construction and renumbering\<close>

text \<open>
  Modelled from the spec: \<^verbatim>\<open>SequenceAnalysis::Create\<close>, \<^verbatim>\<open>Init\<close>,
  \<^verbatim>\<open>ComputeDefaultSequence\<close> and \<^verbatim>\<open>AssignInferred\<close> are declared in the header and defined
  in a file that is not in the sources. What follows is the construction the spec
  describes.

  The analysis sees an operation as a node of the use-def graph: whether it is a compute
  operation, its explicit sequence hint if it has one, the operations whose results it
  reads, and, for a feedback operation, the operations it reads through its
  prior-iteration edge, which are kept apart because the acyclicity requirement exempts
  them.
\<close>

record sair_node =
  node_id :: nat
  is_compute :: bool
  sequence_hint :: "int option"
  operands :: "nat list"
  prior_reads :: "nat list"

text \<open>
  The data dependencies within the program, producer first; the prior-iteration reads of
  feedback operations are left out.
\<close>

definition dependency_edges :: "sair_node list \<Rightarrow> (nat \<times> nat) list" where
  "dependency_edges program =
     concat (map (\<lambda>x. map (\<lambda>d. (d, node_id x))
                          (filter (\<lambda>d. d \<in> set (map node_id program)) (operands x)))
                 program)"

text \<open>
  An operation can be placed when none of those it depends on is still to be placed.
  Among the operations that can be placed, the one with the smallest hint goes first,
  before those without a hint; ties go by program order.
\<close>

definition ready :: "sair_node list \<Rightarrow> sair_node \<Rightarrow> bool" where
  "ready remaining x = list_all (\<lambda>d. d \<notin> set (map node_id remaining)) (operands x)"

definition hinted_before :: "sair_node \<Rightarrow> sair_node \<Rightarrow> bool" where
  "hinted_before x y =
     (case sequence_hint x of
        None \<Rightarrow> False
      | Some hx \<Rightarrow> (case sequence_hint y of None \<Rightarrow> True | Some hy \<Rightarrow> hx < hy))"

definition next_op :: "sair_node list \<Rightarrow> sair_node option" where
  "next_op remaining =
     (case filter (ready remaining) remaining of
        [] \<Rightarrow> None
      | r # rs \<Rightarrow> Some (fold (\<lambda>y best. if hinted_before y best then y else best) rs r))"

lemma next_op_ready:
  assumes "next_op remaining = Some x"
  shows "x \<in> set remaining \<and> ready remaining x"
proof -
  have pick: "fold (\<lambda>y best. if P y best then y else best) rs r \<in> set (r # rs)"
    for P :: "sair_node \<Rightarrow> sair_node \<Rightarrow> bool" and rs r
    by (induction rs arbitrary: r) auto
  from assms obtain r rs where f: "filter (ready remaining) remaining = r # rs"
    and x: "x = fold (\<lambda>y best. if hinted_before y best then y else best) rs r"
    by (auto simp: next_op_def split: list.splits)
  from pick [of hinted_before rs r] x f have "x \<in> set (filter (ready remaining) remaining)"
    by simp
  then show ?thesis by simp
qed

function topological_order :: "sair_node list \<Rightarrow> sair_node list option" where
  "topological_order remaining =
     (if remaining = [] then Some []
      else case next_op remaining of
             None \<Rightarrow> None
           | Some x \<Rightarrow> map_option ((#) x) (topological_order (remove1 x remaining)))"
  by pat_completeness auto
termination
proof (relation "measure length")
  show "wf (measure length)" by simp
next
  fix remaining :: "sair_node list" and x
  assume "remaining \<noteq> []" "next_op remaining = Some x"
  then have "x \<in> set remaining" using next_op_ready by blast
  then show "(remove1 x remaining, remaining) \<in> measure length"
    by (simp add: length_remove1) (cases remaining, auto)
qed

text \<open>
  \<^verbatim>\<open>Create\<close>: no analysis when the operations cannot all be placed; otherwise the compute
  operations in the order found, numbered from 0, and the feedback operations whose
  prior-iteration edge was cut.
\<close>

definition Create :: "sair_node list \<Rightarrow> SequenceAnalysis option" where
  "Create program =
     (case topological_order program of
        None \<Rightarrow> None
      | Some order \<Rightarrow>
          Some \<lparr>sequenced_ops =
                  zip (map int [0..<length (filter is_compute order)])
                      (map node_id (filter is_compute order)),
                fby_ops_to_cut = map node_id (filter (\<lambda>x. prior_reads x \<noteq> []) program)\<rparr>)"

text \<open>
  \<^verbatim>\<open>AssignInferred\<close>: each operation of the index gets its position in the index as its
  hint, the first position being 0.
\<close>

definition set_sequence :: "nat \<Rightarrow> int \<Rightarrow> sair_node list \<Rightarrow> sair_node list" where
  "set_sequence op index program =
     map (\<lambda>x. if node_id x = op then x\<lparr>sequence_hint := Some index\<rparr> else x) program"

definition AssignInferred :: "SequenceAnalysis \<Rightarrow> sair_node list \<Rightarrow> sair_node list" where
  "AssignInferred sa program =
     fold (\<lambda>(index, op) prog. set_sequence op index prog)
       (zip (map int [0..<length (sequenced_ops sa)]) (map snd (sequenced_ops sa)))
       program"

text \<open>The explicit hint an operation carries in the program.\<close>

definition hint_of :: "sair_node list \<Rightarrow> nat \<Rightarrow> int option" where
  "hint_of program op =
     (case find (\<lambda>x. node_id x = op) program of None \<Rightarrow> None | Some x \<Rightarrow> sequence_hint x)"

section \<open>SequenceAnalysis: the merged iteration\<close>

text \<open>
  \<^verbatim>\<open>SairOpIterator\<close>, from the header: an iterator over the ordered index, the operations
  implicitly sequenced after the entry it points to, and the position of the next of them
  to take. \<^verbatim>\<open>ImplicitlySequencedOps\<close> is declared in the header and defined elsewhere; the
  iterator takes it as the function \<open>implicit\<close>, from a sequence number to the operations
  sequenced after it.
\<close>

record SairOpIterator =
  compute_iterator :: nat
  implicitly_sequenced :: "nat list"
  implicitly_sequenced_next_pos :: nat

definition RepopulateImplicitlySequenced ::
  "(int \<Rightarrow> nat list) \<Rightarrow> SequenceAnalysis \<Rightarrow> SairOpIterator \<Rightarrow> SairOpIterator" where
  "RepopulateImplicitlySequenced implicit sa it =
     (if compute_iterator it \<noteq> length (sequenced_ops sa)
      then it\<lparr>implicitly_sequenced := implicit (fst (sequenced_ops sa ! compute_iterator it)),
              implicitly_sequenced_next_pos := 0\<rparr>
      else it\<lparr>implicitly_sequenced := [], implicitly_sequenced_next_pos := 0\<rparr>)"

definition iterator_begin :: "(int \<Rightarrow> nat list) \<Rightarrow> SequenceAnalysis \<Rightarrow> SairOpIterator" where
  "iterator_begin implicit sa =
     RepopulateImplicitlySequenced implicit sa
       \<lparr>compute_iterator = 0, implicitly_sequenced = [], implicitly_sequenced_next_pos = 0\<rparr>"

definition iterator_end :: "SequenceAnalysis \<Rightarrow> SairOpIterator" where
  "iterator_end sa =
     \<lparr>compute_iterator = length (sequenced_ops sa), implicitly_sequenced = [],
      implicitly_sequenced_next_pos = 0\<rparr>"

definition increment :: "(int \<Rightarrow> nat list) \<Rightarrow> SequenceAnalysis \<Rightarrow> SairOpIterator \<Rightarrow> SairOpIterator" where
  "increment implicit sa it =
     (if implicitly_sequenced_next_pos it = length (implicitly_sequenced it)
      then RepopulateImplicitlySequenced implicit sa
             (it\<lparr>compute_iterator := Suc (compute_iterator it)\<rparr>)
      else it\<lparr>implicitly_sequenced_next_pos := Suc (implicitly_sequenced_next_pos it)\<rparr>)"

definition dereference :: "SequenceAnalysis \<Rightarrow> SairOpIterator \<Rightarrow> nat" where
  "dereference sa it =
     (if implicitly_sequenced_next_pos it = 0
      then snd (sequenced_ops sa ! compute_iterator it)
      else implicitly_sequenced it ! (implicitly_sequenced_next_pos it - 1))"

text \<open>
  \<^verbatim>\<open>operator==\<close> compares the index iterator and the position, not the list of implicitly
  sequenced operations.
\<close>

definition iterator_equal :: "SairOpIterator \<Rightarrow> SairOpIterator \<Rightarrow> bool" where
  "iterator_equal it other =
     (compute_iterator it = compute_iterator other
      \<and> implicitly_sequenced_next_pos it = implicitly_sequenced_next_pos other)"

text \<open>
  The operations a range-based loop over \<^verbatim>\<open>AllOps()\<close> visits: from the begin iterator,
  dereference and increment until the end iterator is reached. The loop is a partial
  function; \<open>None\<close> stands for a loop that does not end.
\<close>

partial_function (option) visit_from ::
  "(int \<Rightarrow> nat list) \<Rightarrow> SequenceAnalysis \<Rightarrow> SairOpIterator \<Rightarrow> nat list option" where
  "visit_from implicit sa it =
     (if iterator_equal it (iterator_end sa) then Some []
      else Option.bind (visit_from implicit sa (increment implicit sa it))
             (\<lambda>visited. Some (dereference sa it # visited)))"

definition AllOps :: "(int \<Rightarrow> nat list) \<Rightarrow> SequenceAnalysis \<Rightarrow> nat list option" where
  "AllOps implicit sa = visit_from implicit sa (iterator_begin implicit sa)"

text \<open>The iterator that points to entry \<open>i\<close> of the index, or the end iterator past the last entry.\<close>

definition iterator_at :: "(int \<Rightarrow> nat list) \<Rightarrow> SequenceAnalysis \<Rightarrow> nat \<Rightarrow> nat \<Rightarrow> SairOpIterator" where
  "iterator_at implicit sa i pos =
     (if i < length (sequenced_ops sa)
      then \<lparr>compute_iterator = i,
            implicitly_sequenced = implicit (fst (sequenced_ops sa ! i)),
            implicitly_sequenced_next_pos = pos\<rparr>
      else iterator_end sa)"


text \<open>What \<^verbatim>\<open>AssignInferred\<close> does to one operation.\<close>

definition assign_node :: "(int \<times> nat) list \<Rightarrow> sair_node \<Rightarrow> sair_node" where
  "assign_node steps x =
     (case filter (\<lambda>s. snd s = node_id x) steps of
        [] \<Rightarrow> x
      | m # ms \<Rightarrow> x\<lparr>sequence_hint := Some (fst (last (m # ms)))\<rparr>)"


section \<open>An example program\<close>

text \<open>
  A copy over two dimensions, the second depending on the first, with loops \<open>i\<close> and
  \<open>j\<close>; a map-reduce with one parallel and one reduction dimension that is to
  rematerialize \<open>i\<close> and \<open>j\<close>; and a copy that reads its result.
\<close>

definition ex_source :: operation where
  "ex_source =
     \<lparr>op_id = 1, kind = SairCopyOp, parallel_domain = [100, 101], other_domain = [],
      shape = [(RangeType [], \<lparr>use_domain_size = 0, dimensions = []\<rparr>),
               (RangeType [(RangeType [], \<lparr>use_domain_size = 0, dimensions = []\<rparr>)],
                \<lparr>use_domain_size = 1, dimensions = [0]\<rparr>)],
      access_pattern_array = [\<lparr>use_domain_size = 2, dimensions = []\<rparr>],
      inits = [], inputs = [Outside 0],
      loop_nest = Some [\<lparr>name = ''i'', iter = Iter 0 1\<rparr>, \<lparr>name = ''j'', iter = Iter 1 3\<rparr>],
      memory_space = None,
      result_types =
        [\<lparr>Shape = [(RangeType [], \<lparr>use_domain_size = 0, dimensions = []\<rparr>),
                   (RangeType [(RangeType [], \<lparr>use_domain_size = 0, dimensions = []\<rparr>)],
                    \<lparr>use_domain_size = 1, dimensions = [0]\<rparr>)],
          ElementType = ''f32''\<rparr>],
      body = None\<rparr>"

definition ex_pending :: operation where
  "ex_pending =
     \<lparr>op_id = 2, kind = SairMapReduceOp, parallel_domain = [10], other_domain = [11],
      shape = [(RangeType [], \<lparr>use_domain_size = 0, dimensions = []\<rparr>),
               (RangeType [(RangeType [], \<lparr>use_domain_size = 0, dimensions = []\<rparr>)],
                \<lparr>use_domain_size = 1, dimensions = [0]\<rparr>)],
      access_pattern_array = [\<lparr>use_domain_size = 1, dimensions = [0]\<rparr>,
                              \<lparr>use_domain_size = 2, dimensions = [0, 1]\<rparr>],
      inits = [Outside 1], inputs = [Outside 2],
      loop_nest = Some [\<lparr>name = ''a'', iter = Iter 0 1\<rparr>, \<lparr>name = ''i'', iter = Remat\<rparr>,
                        \<lparr>name = ''r'', iter = Iter 1 2\<rparr>, \<lparr>name = ''j'', iter = Remat\<rparr>],
      memory_space = Some [Some 1],
      result_types =
        [\<lparr>Shape = [(RangeType [], \<lparr>use_domain_size = 0, dimensions = []\<rparr>)],
          ElementType = ''f32''\<rparr>],
      body = Some \<lparr>arguments = [IndexType, IndexType, ScalarType ''f32'', ScalarType ''f32''],
                   block_ops = 0\<rparr>\<rparr>"

definition ex_user :: operation where
  "ex_user =
     \<lparr>op_id = 3, kind = SairCopyOp, parallel_domain = [10], other_domain = [],
      shape = [(RangeType [], \<lparr>use_domain_size = 0, dimensions = []\<rparr>)],
      access_pattern_array = [\<lparr>use_domain_size = 1, dimensions = [0]\<rparr>],
      inits = [], inputs = [OpResult 2 0],
      loop_nest = None,
      memory_space = None,
      result_types =
        [\<lparr>Shape = [(RangeType [], \<lparr>use_domain_size = 0, dimensions = []\<rparr>)],
          ElementType = ''f32''\<rparr>],
      body = None\<rparr>"

definition ex_main_loops :: main_loops where
  "ex_main_loops =
     [''i'' \<mapsto> \<lparr>range_b = 100, step_b = 1, dependent_on = []\<rparr>,
      ''j'' \<mapsto> \<lparr>range_b = 101, step_b = 3, dependent_on = [''i'']\<rparr>,
      ''a'' \<mapsto> \<lparr>range_b = 10, step_b = 1, dependent_on = []\<rparr>,
      ''r'' \<mapsto> \<lparr>range_b = 11, step_b = 2, dependent_on = [''a'']\<rparr>]"


definition ex_program :: program where
  "ex_program = [ex_source, ex_pending, ex_user]"



text \<open>The same program, with only loop \<open>i\<close> to rematerialize on the map-reduce.\<close>

definition ex_single :: operation where
  "ex_single =
     ex_pending\<lparr>loop_nest := Some [\<lparr>name = ''a'', iter = Iter 0 1\<rparr>, \<lparr>name = ''i'', iter = Remat\<rparr>,
                                    \<lparr>name = ''r'', iter = Iter 1 2\<rparr>]\<rparr>"

definition ex_program_single :: program where
  "ex_program_single = [ex_source, ex_single, ex_user]"


text \<open>
  The first program again, with a projection in place of the map-reduce: an operation of a
  kind that \<^verbatim>\<open>Rematerialize\<close> does not recreate, whose loop nest asks for loop \<open>i\<close>.
\<close>

definition ex_unsupported :: operation where
  "ex_unsupported =
     \<lparr>op_id = 2, kind = SairProjAnyOp, parallel_domain = [10], other_domain = [11],
      shape = [(RangeType [], \<lparr>use_domain_size = 0, dimensions = []\<rparr>),
               (RangeType [], \<lparr>use_domain_size = 1, dimensions = []\<rparr>)],
      access_pattern_array = [\<lparr>use_domain_size = 2, dimensions = [0, 1]\<rparr>],
      inits = [], inputs = [OpResult 1 0],
      loop_nest = Some [\<lparr>name = ''i'', iter = Remat\<rparr>],
      memory_space = None,
      result_types =
        [\<lparr>Shape = [(RangeType [], \<lparr>use_domain_size = 0, dimensions = []\<rparr>)],
          ElementType = ''f32''\<rparr>],
      body = None\<rparr>"

definition ex_program_unsupported :: program where
  "ex_program_unsupported = [ex_source, ex_unsupported, ex_user]"


text \<open>
  A program whose second operation has loop \<open>A\<close> to rematerialize ahead of the loops over
  its own dimensions: loop \<open>B\<close> iterates over dimension 0 and loop \<open>C\<close> over dimension 1,
  whose range depends on dimension 0. The entry of \<open>C\<close> is the third of the loop nest and
  that of \<open>B\<close> the second.
\<close>

definition ex_outer :: operation where
  "ex_outer =
     \<lparr>op_id = 1, kind = SairCopyOp, parallel_domain = [100], other_domain = [],
      shape = [(RangeType [], \<lparr>use_domain_size = 0, dimensions = []\<rparr>)],
      access_pattern_array = [\<lparr>use_domain_size = 1, dimensions = []\<rparr>],
      inits = [], inputs = [Outside 0],
      loop_nest = Some [\<lparr>name = ''A'', iter = Iter 0 1\<rparr>],
      memory_space = None,
      result_types =
        [\<lparr>Shape = [(RangeType [], \<lparr>use_domain_size = 0, dimensions = []\<rparr>)],
          ElementType = ''f32''\<rparr>],
      body = None\<rparr>"

definition ex_inner :: operation where
  "ex_inner =
     \<lparr>op_id = 2, kind = SairCopyOp, parallel_domain = [200, 201], other_domain = [],
      shape = [(RangeType [], \<lparr>use_domain_size = 0, dimensions = []\<rparr>),
               (RangeType [(RangeType [], \<lparr>use_domain_size = 0, dimensions = []\<rparr>)],
                \<lparr>use_domain_size = 1, dimensions = [0]\<rparr>)],
      access_pattern_array = [\<lparr>use_domain_size = 2, dimensions = []\<rparr>],
      inits = [], inputs = [Outside 0],
      loop_nest = Some [\<lparr>name = ''A'', iter = Remat\<rparr>, \<lparr>name = ''B'', iter = Iter 0 1\<rparr>,
                        \<lparr>name = ''C'', iter = Iter 1 1\<rparr>],
      memory_space = None,
      result_types =
        [\<lparr>Shape = [(RangeType [], \<lparr>use_domain_size = 0, dimensions = []\<rparr>),
                   (RangeType [(RangeType [], \<lparr>use_domain_size = 0, dimensions = []\<rparr>)],
                    \<lparr>use_domain_size = 1, dimensions = [0]\<rparr>)],
          ElementType = ''f32''\<rparr>],
      body = None\<rparr>"


text \<open>
  Two use-def graphs: two compute operations that read each other's result; and a graph in
  which operation 1 reads a feedback operation, which reads operation 2 through its
  prior-iteration edge only, while operation 2 and an operation that is not a compute
  operation read operation 1. The analysis of the second, and a choice of the operations
  implicitly sequenced after a sequence number: those that are not compute operations and
  read the operation sequenced at that number.
\<close>

definition ex_cyclic :: "sair_node list" where
  "ex_cyclic =
     [\<lparr>node_id = 1, is_compute = True, sequence_hint = None, operands = [2], prior_reads = []\<rparr>,
      \<lparr>node_id = 2, is_compute = True, sequence_hint = None, operands = [1], prior_reads = []\<rparr>]"

definition ex_feedback :: "sair_node list" where
  "ex_feedback =
     [\<lparr>node_id = 1, is_compute = True, sequence_hint = Some 7, operands = [3], prior_reads = []\<rparr>,
      \<lparr>node_id = 3, is_compute = False, sequence_hint = None, operands = [0], prior_reads = [2]\<rparr>,
      \<lparr>node_id = 2, is_compute = True, sequence_hint = None, operands = [1], prior_reads = []\<rparr>,
      \<lparr>node_id = 4, is_compute = False, sequence_hint = None, operands = [1], prior_reads = []\<rparr>]"

definition ex_analysis :: SequenceAnalysis where
  "ex_analysis = \<lparr>sequenced_ops = [(0, 1), (1, 2)], fby_ops_to_cut = [3]\<rparr>"

definition ex_implicit :: "sair_node list \<Rightarrow> int \<Rightarrow> nat list" where
  "ex_implicit program k =
     map node_id
       (filter (\<lambda>x. \<not> is_compute x
                    \<and> list_ex (\<lambda>e. fst e = k \<and> snd e \<in> set (operands x)) (sequenced_ops ex_analysis))
          program)"


section \<open>ConcreteOpSet: the invariant and the order\<close>

lemma opset_inv_empty: "opset_inv ConcreteOpSet_empty"
  by (simp add: opset_inv_def ConcreteOpSet_empty_def SetVector_empty_def)

lemma insert_present:
  assumes "opset_inv s" and "contains s op"
  shows "ConcreteOpSet_insert op s = (False, s)"
proof -
  have "insert op (sv_set (contents s)) = sv_set (contents s)"
    using assms(2) by (auto simp: contains_def)
  then show ?thesis
    using assms(2) by (simp add: ConcreteOpSet_insert_def SetVector_insert_def contains_def)
qed

lemma insert_absent:
  assumes "\<not> contains s op"
  shows "fst (ConcreteOpSet_insert op s) \<and> Ops (snd (ConcreteOpSet_insert op s)) = Ops s @ [op]"
  using assms by (simp add: ConcreteOpSet_insert_def SetVector_insert_def contains_def Ops_def)

lemma insert_inv:
  assumes "opset_inv s"
  shows "opset_inv (snd (ConcreteOpSet_insert op s))"
  using assms
  by (auto simp: ConcreteOpSet_insert_def SetVector_insert_def opset_inv_def Let_def)

lemma erase_inv:
  assumes "opset_inv s"
  shows "opset_inv (erase op s)"
  using assms by (auto simp: erase_def SetVector_remove_def opset_inv_def)

lemma filter_neq_absent: "x \<notin> set xs \<Longrightarrow> filter (\<lambda>y. y \<noteq> x) xs = xs"
  by (induction xs) auto

lemma remove1_distinct_filter: "distinct xs \<Longrightarrow> remove1 x xs = filter (\<lambda>y. y \<noteq> x) xs"
  by (induction xs) (auto simp: filter_neq_absent)

lemma erase_Ops:
  assumes "opset_inv s"
  shows "Ops (erase op s) = filter (\<lambda>x. x \<noteq> op) (Ops s)"
  using assms
  by (simp add: erase_def SetVector_remove_def opset_inv_def Ops_def remove1_distinct_filter
      filter_neq_absent)


lemma insert_Ops:
  assumes "opset_inv s"
  shows "Ops (snd (ConcreteOpSet_insert op s)) = (if op \<in> set (Ops s) then Ops s else Ops s @ [op])"
proof (cases "contains s op")
  case True
  then show ?thesis
    using insert_present [OF assms True] assms by (simp add: contains_def opset_inv_def Ops_def)
next
  case False
  then show ?thesis
    using insert_absent [OF False] assms by (simp add: contains_def opset_inv_def Ops_def)
qed

lemma insert_range_inv:
  "opset_inv s \<Longrightarrow> opset_inv (ConcreteOpSet_insert_range xs s)"
  unfolding ConcreteOpSet_insert_range_def
  by (induction xs arbitrary: s) (simp_all add: insert_inv)

lemma insert_range_Ops:
  "opset_inv s \<Longrightarrow>
   Ops (ConcreteOpSet_insert_range xs s) = Ops s @ filter (\<lambda>x. x \<notin> set (Ops s)) (first_occurrences xs)"
proof (induction xs arbitrary: s)
  case Nil
  then show ?case by (simp add: ConcreteOpSet_insert_range_def)
next
  case (Cons x xs)
  let ?t = "snd (ConcreteOpSet_insert x s)"
  have inv: "opset_inv ?t" using Cons.prems by (rule insert_inv)
  have step: "ConcreteOpSet_insert_range (x # xs) s = ConcreteOpSet_insert_range xs ?t"
    by (simp add: ConcreteOpSet_insert_range_def)
  show ?case
  proof (cases "x \<in> set (Ops s)")
    case True
    then have t: "Ops ?t = Ops s" using insert_Ops [OF Cons.prems] by simp
    have "filter (\<lambda>y. y \<notin> set (Ops s)) (first_occurrences (x # xs))
        = filter (\<lambda>y. y \<notin> set (Ops s)) (first_occurrences xs)"
      using True by (auto intro: filter_cong)
    then show ?thesis using Cons.IH [OF inv] step t by simp
  next
    case False
    then have t: "Ops ?t = Ops s @ [x]" using insert_Ops [OF Cons.prems] by simp
    have "filter (\<lambda>y. y \<notin> set (Ops s)) (first_occurrences (x # xs))
        = x # filter (\<lambda>y. y \<notin> set (Ops s @ [x])) (first_occurrences xs)"
      using False by (auto intro: filter_cong)
    then show ?thesis using Cons.IH [OF inv] step t by simp
  qed
qed

lemma first_occurrences_distinct: "distinct (first_occurrences xs)"
  by (induction xs) auto

lemma first_occurrences_set: "set (first_occurrences xs) = set xs"
  by (induction xs) auto


text \<open>
  C10. A \<^verbatim>\<open>ConcreteOpSet\<close> holds no operation twice and lists its operations in the order of
  their first insertion: inserting an operation that is already there returns false and
  changes nothing; inserting a new one returns true and puts it last; \<^verbatim>\<open>erase\<close> takes out
  the given operation only and keeps the others in their order; and \<^verbatim>\<open>Ops()\<close> of a set
  filled from the empty one lists each inserted operation once, where it first came.
\<close>

theorem ConcreteOpSet_first_insertion_order:
  assumes "opset_inv s"
  shows "(contains s op \<longrightarrow> ConcreteOpSet_insert op s = (False, s))
       \<and> (\<not> contains s op \<longrightarrow>
            fst (ConcreteOpSet_insert op s) \<and> Ops (snd (ConcreteOpSet_insert op s)) = Ops s @ [op])
       \<and> opset_inv (snd (ConcreteOpSet_insert op s))
       \<and> distinct (Ops s)
       \<and> (contains s op \<longleftrightarrow> op \<in> set (Ops s))
       \<and> Ops (erase op s) = filter (\<lambda>x. x \<noteq> op) (Ops s)
       \<and> opset_inv (erase op s)
       \<and> Ops (ConcreteOpSet_insert_range xs ConcreteOpSet_empty) = first_occurrences xs
       \<and> opset_inv (ConcreteOpSet_insert_range xs ConcreteOpSet_empty)"
proof -
  have "Ops (ConcreteOpSet_insert_range xs ConcreteOpSet_empty) = first_occurrences xs"
    using insert_range_Ops [OF opset_inv_empty, of xs]
    by (simp add: Ops_def ConcreteOpSet_empty_def SetVector_empty_def)
  moreover have "distinct (Ops s)" "contains s op \<longleftrightarrow> op \<in> set (Ops s)"
    using assms by (simp_all add: opset_inv_def Ops_def contains_def)
  ultimately show ?thesis
    using assms insert_present [of s op] insert_absent [of s op] insert_inv [of s op]
      erase_Ops [of s op] erase_inv [of s op] insert_range_inv [OF opset_inv_empty, of xs]
    by blast
qed

theorem ConcreteOpSet_first_insertion_order_witness:
  "opset_inv \<lparr>contents = \<lparr>sv_set = {3, 1, 2}, sv_vector = [3, 1, 2]\<rparr>\<rparr>
   \<and> ConcreteOpSet_insert 1 \<lparr>contents = \<lparr>sv_set = {3, 1, 2}, sv_vector = [3, 1, 2]\<rparr>\<rparr>
       = (False, \<lparr>contents = \<lparr>sv_set = {3, 1, 2}, sv_vector = [3, 1, 2]\<rparr>\<rparr>)
   \<and> Ops (snd (ConcreteOpSet_insert 7 \<lparr>contents = \<lparr>sv_set = {3, 1, 2}, sv_vector = [3, 1, 2]\<rparr>\<rparr>))
       = [3, 1, 2, 7]
   \<and> Ops (erase 1 \<lparr>contents = \<lparr>sv_set = {3, 1, 2}, sv_vector = [3, 1, 2]\<rparr>\<rparr>) = [3, 2]
   \<and> Ops (ConcreteOpSet_insert_range [3, 1, 3, 2, 1] ConcreteOpSet_empty) = [3, 1, 2]"
proof -
  let ?s = "\<lparr>contents = \<lparr>sv_set = {3, 1, 2}, sv_vector = [3, 1, 2]\<rparr>\<rparr>"
  have inv: "opset_inv ?s" by (simp add: opset_inv_def)
  have c1: "contains ?s 1" and c7: "\<not> contains ?s 7" by (simp_all add: contains_def)
  show ?thesis
    using inv c1 c7
      ConcreteOpSet_first_insertion_order [OF inv, of 1 "[3, 1, 3, 2, 1]"]
      ConcreteOpSet_first_insertion_order [OF inv, of 7 "[]"]
    by (simp add: Ops_def)
qed

section \<open>SequenceAnalysis: neighbours\<close>

lemma FindSequencedOp_first:
  assumes "i < length (sequenced_ops sa)"
    and "\<forall>j<i. snd (sequenced_ops sa ! j) \<noteq> snd (sequenced_ops sa ! i)"
  shows "FindSequencedOp sa (snd (sequenced_ops sa ! i)) = i"
proof -
  let ?xs = "sequenced_ops sa"
  let ?P = "\<lambda>e. snd e \<noteq> snd (?xs ! i)"
  have "takeWhile ?P ?xs = take i ?xs"
  proof (rule takeWhile_eq_take_P_nth)
    show "\<And>j. j < i \<Longrightarrow> j < length ?xs \<Longrightarrow> ?P (?xs ! j)" using assms(2) by simp
    show "i < length ?xs \<Longrightarrow> \<not> ?P (?xs ! i)" by simp
  qed
  then show ?thesis using assms(1) by (simp add: FindSequencedOp_def)
qed

text \<open>
  C9. For an operation held by the analysis, at index \<open>i\<close> of the ordered index (its first
  entry there, which is its only one when no operation is sequenced twice), \<^verbatim>\<open>PrevOp\<close>
  returns the operation of entry \<open>i - 1\<close>, or null when \<open>i\<close> is the first entry; \<^verbatim>\<open>NextOp\<close>
  returns the operation of entry \<open>i + 1\<close>, or null when \<open>i\<close> is the last; both return
  null for a null operation.
\<close>

theorem PrevOp_NextOp_neighbours:
  assumes "i < length (sequenced_ops sa)"
    and "\<forall>j<i. snd (sequenced_ops sa ! j) \<noteq> snd (sequenced_ops sa ! i)"
  shows "PrevOp sa (Some (snd (sequenced_ops sa ! i)))
           = Inr (if i = 0 then None else Some (snd (sequenced_ops sa ! (i - 1))))
       \<and> NextOp sa (Some (snd (sequenced_ops sa ! i)))
           = Inr (if Suc i = length (sequenced_ops sa) then None
                  else Some (snd (sequenced_ops sa ! Suc i)))
       \<and> PrevOp sa None = Inr None
       \<and> NextOp sa None = Inr None"
  using assms FindSequencedOp_first [OF assms]
  by (simp add: PrevOp_def NextOp_def)

theorem PrevOp_NextOp_neighbours_witness:
  "PrevOp \<lparr>sequenced_ops = [(0, 11), (0, 12), (5, 13)], fby_ops_to_cut = []\<rparr> (Some 12) = Inr (Some 11)
   \<and> NextOp \<lparr>sequenced_ops = [(0, 11), (0, 12), (5, 13)], fby_ops_to_cut = []\<rparr> (Some 12) = Inr (Some 13)
   \<and> PrevOp \<lparr>sequenced_ops = [(0, 11), (0, 12), (5, 13)], fby_ops_to_cut = []\<rparr> (Some 11) = Inr None
   \<and> NextOp \<lparr>sequenced_ops = [(0, 11), (0, 12), (5, 13)], fby_ops_to_cut = []\<rparr> (Some 13) = Inr None"
proof -
  let ?sa = "\<lparr>sequenced_ops = [(0, 11), (0, 12), (5, 13)], fby_ops_to_cut = []\<rparr>"
  have f: "\<forall>j<n. snd (sequenced_ops ?sa ! j) \<noteq> snd (sequenced_ops ?sa ! n)" if "n < 3" for n
    using that by (auto simp: less_Suc_eq numeral_3_eq_3)
  show ?thesis
    using PrevOp_NextOp_neighbours [of 0 ?sa] PrevOp_NextOp_neighbours [of 1 ?sa]
      PrevOp_NextOp_neighbours [of 2 ?sa] f [of 0] f [of 1] f [of 2]
    by (simp add: numeral_2_eq_2)
qed

section \<open>SequenceAnalysis: cycles\<close>

lemma dependency_edges_iff:
  "(d, n) \<in> set (dependency_edges p) \<longleftrightarrow>
   (\<exists>x\<in>set p. n = node_id x \<and> d \<in> set (operands x) \<and> d \<in> node_id ` set p)"
  by (auto simp: dependency_edges_def)

lemma not_ready_dependency:
  assumes "\<not> ready remaining x"
  shows "\<exists>d\<in>set (operands x). d \<in> node_id ` set remaining"
  using assms by (auto simp: ready_def list_all_iff)

lemma next_op_None:
  assumes "next_op remaining = None"
  shows "\<forall>x\<in>set remaining. \<not> ready remaining x"
  using assms by (auto simp: next_op_def filter_empty_conv split: list.splits)

text \<open>Without a cycle, some operation can always be placed.\<close>

lemma acyclic_next_op:
  assumes ac: "acyclic (set (dependency_edges p))"
    and sub: "set remaining \<subseteq> set p" and ne: "remaining \<noteq> []"
  shows "next_op remaining \<noteq> None"
proof
  assume "next_op remaining = None"
  then have stuck: "\<forall>x\<in>set remaining. \<not> ready remaining x" by (rule next_op_None)
  have "wf (set (dependency_edges p))"
    using ac by (simp add: finite_acyclic_wf)
  moreover from ne obtain x0 where "x0 \<in> set remaining" by (cases remaining) auto
  then have "node_id x0 \<in> node_id ` set remaining" by simp
  ultimately obtain z where z: "z \<in> node_id ` set remaining"
    and minimal: "\<And>y. (y, z) \<in> set (dependency_edges p) \<Longrightarrow> y \<notin> node_id ` set remaining"
    by (rule wfE_min) blast
  from z obtain x where x: "x \<in> set remaining" "z = node_id x" by auto
  with stuck not_ready_dependency obtain d where d: "d \<in> set (operands x)" "d \<in> node_id ` set remaining"
    by blast
  then have "(d, z) \<in> set (dependency_edges p)"
    using x sub unfolding dependency_edges_iff by auto
  with minimal d(2) show False by blast
qed

lemma acyclic_topological_order:
  assumes "acyclic (set (dependency_edges p))"
  shows "set remaining \<subseteq> set p \<Longrightarrow> topological_order remaining \<noteq> None"
proof (induction remaining rule: topological_order.induct)
  case (1 remaining)
  show ?case
  proof (cases "remaining = []")
    case True
    then show ?thesis by simp
  next
    case False
    with acyclic_next_op [OF assms "1.prems"] obtain x where x: "next_op remaining = Some x"
      by auto
    have "set (remove1 x remaining) \<subseteq> set p"
      using "1.prems" set_remove1_subset by fast
    from "1.IH" [OF False x this] show ?thesis
      using False x by (auto simp del: topological_order.simps simp add: topological_order.simps [of remaining])
  qed
qed

text \<open>An order found shows that there is no cycle.\<close>

lemma acyclic_add_source:
  assumes R: "acyclic R" and S: "\<forall>(u, w)\<in>S. u = a" and a: "a \<notin> Range R" "a \<notin> Range S"
  shows "acyclic (R \<union> S)"
proof (rule acyclicI, intro allI notI)
  fix v assume cyc: "(v, v) \<in> (R \<union> S)\<^sup>+"
  have stay: "(u, w) \<in> R\<^sup>+" if "(u, w) \<in> (R \<union> S)\<^sup>+" "u \<noteq> a" for u w
    using that
  proof (induction rule: trancl_induct)
    case (base y)
    then show ?case using S by auto
  next
    case (step y z)
    have "y \<in> Range (R \<union> S)" using step.hyps(1) by (metis Range_iff trancl_range)
    then have "y \<noteq> a" using a by auto
    then have "(y, z) \<in> R" using step.hyps(2) S by auto
    with step show ?case by auto
  qed
  show False
  proof (cases "v = a")
    case True
    then have "a \<in> Range ((R \<union> S)\<^sup>+)" using cyc by (auto simp del: trancl_range)
    then have "a \<in> Range (R \<union> S)" by (simp only: trancl_range)
    then show False using a by auto
  next
    case False
    from stay [OF cyc False] R show False by (simp add: acyclic_def)
  qed
qed

lemma topological_order_acyclic:
  "distinct (map node_id remaining) \<Longrightarrow> topological_order remaining = Some order \<Longrightarrow>
   acyclic (set (dependency_edges remaining))"
proof (induction remaining arbitrary: order rule: topological_order.induct)
  case (1 remaining)
  show ?case
  proof (cases "remaining = []")
    case True
    then show ?thesis by (simp add: dependency_edges_def acyclic_def)
  next
    case False
    with "1.prems"(2) obtain x order' where x: "next_op remaining = Some x"
      and rest: "topological_order (remove1 x remaining) = Some order'"
      by (auto simp del: topological_order.simps simp add: topological_order.simps [of remaining]
          split: option.splits)
    let ?rest = "remove1 x remaining"
    from next_op_ready [OF x] have xin: "x \<in> set remaining" and rdy: "ready remaining x" by simp_all
    have dist: "distinct (map node_id ?rest)"
      using "1.prems"(1) by (simp add: distinct_map distinct_remove1 inj_on_def)
    have dr: "distinct remaining" using "1.prems"(1) by (simp add: distinct_map)
    have ids: "node_id ` set ?rest = node_id ` set remaining - {node_id x}"
      using "1.prems"(1) xin dr by (auto simp: distinct_map inj_on_def)
    from "1.IH" [OF False x dist rest] have ac: "acyclic (set (dependency_edges ?rest))" .
    let ?S = "{(u, w). (u, w) \<in> set (dependency_edges remaining) \<and> u = node_id x}"
    have sub: "set (dependency_edges remaining) \<subseteq> set (dependency_edges ?rest) \<union> ?S"
    proof
      fix e assume e: "e \<in> set (dependency_edges remaining)"
      obtain d n where dn: "e = (d, n)" by (cases e)
      with e have "(d, n) \<in> set (dependency_edges remaining)" by simp
      then obtain y where y: "y \<in> set remaining" "n = node_id y" "d \<in> set (operands y)"
        "d \<in> node_id ` set remaining"
        unfolding dependency_edges_iff by auto
      have "y \<noteq> x"
        using rdy y(1,3,4) by (auto simp: ready_def list_all_iff)
      then have yr: "y \<in> set ?rest" using y(1) by simp
      show "e \<in> set (dependency_edges ?rest) \<union> ?S"
      proof (cases "d = node_id x")
        case True
        then show ?thesis using e dn by simp
      next
        case False
        then have "d \<in> node_id ` set ?rest" using y(4) ids by simp
        then have "(d, n) \<in> set (dependency_edges ?rest)"
          using yr y(2,3) unfolding dependency_edges_iff by auto
        then show ?thesis using dn by simp
      qed
    qed
    have noin: "node_id x \<notin> Range (set (dependency_edges remaining))"
    proof
      assume "node_id x \<in> Range (set (dependency_edges remaining))"
      then obtain d where "(d, node_id x) \<in> set (dependency_edges remaining)" by auto
      then obtain y where y: "y \<in> set remaining" "node_id x = node_id y" "d \<in> set (operands y)"
        "d \<in> node_id ` set remaining"
        unfolding dependency_edges_iff by auto
      then have "y = x" using "1.prems"(1) xin by (auto simp: distinct_map inj_on_def)
      then show False using rdy y(3,4) by (auto simp: ready_def list_all_iff)
    qed
    have "node_id x \<notin> Range (set (dependency_edges ?rest))"
    proof
      assume "node_id x \<in> Range (set (dependency_edges ?rest))"
      then obtain d where "(d, node_id x) \<in> set (dependency_edges ?rest)" by auto
      then have "node_id x \<in> node_id ` set ?rest" unfolding dependency_edges_iff by auto
      then show False using ids by simp
    qed
    moreover have "node_id x \<notin> Range ?S" using noin by auto
    ultimately have "acyclic (set (dependency_edges ?rest) \<union> ?S)"
      using ac by (intro acyclic_add_source [where a = "node_id x"]) auto
    then show ?thesis using sub by (rule acyclic_subset)
  qed
qed

text \<open>
  C7. For a program whose operations have distinct identities: when the data dependencies
  that remain after the prior-iteration reads of feedback operations are left out contain
  a cycle, \<^verbatim>\<open>Create\<close> returns no analysis; when they contain none, it returns one.
\<close>

theorem Create_absent_iff_cycle:
  assumes "distinct (map node_id program)"
  shows "(\<not> acyclic (set (dependency_edges program)) \<longrightarrow> Create program = None)
       \<and> (acyclic (set (dependency_edges program)) \<longrightarrow> (\<exists>sa. Create program = Some sa))"
proof (intro conjI impI)
  assume cyc: "\<not> acyclic (set (dependency_edges program))"
  show "Create program = None"
  proof (cases "topological_order program")
    case None
    then show ?thesis by (simp add: Create_def)
  next
    case (Some order)
    from topological_order_acyclic [OF assms Some] cyc show ?thesis by simp
  qed
next
  assume "acyclic (set (dependency_edges program))"
  from acyclic_topological_order [OF this, of program]
  obtain order where "topological_order program = Some order" by auto
  then show "\<exists>sa. Create program = Some sa" by (simp add: Create_def)
qed

theorem Create_absent_iff_cycle_witness:
  "Create ex_cyclic = None
   \<and> \<not> acyclic (set (dependency_edges ex_cyclic))
   \<and> Create ex_feedback = Some ex_analysis
   \<and> acyclic (set (dependency_edges ex_feedback))"
proof -
  have d1: "distinct (map node_id ex_cyclic)" and d2: "distinct (map node_id ex_feedback)"
    by (simp_all add: ex_cyclic_def ex_feedback_def)
  have c1: "Create ex_cyclic = None" by code_simp
  have c2: "Create ex_feedback = Some ex_analysis"
    by code_simp
  from Create_absent_iff_cycle [OF d1] c1 have "\<not> acyclic (set (dependency_edges ex_cyclic))"
    by auto
  moreover from Create_absent_iff_cycle [OF d2] c2 have "acyclic (set (dependency_edges ex_feedback))"
    by auto
  ultimately show ?thesis using c1 c2 by blast
qed

section \<open>SequenceAnalysis: renumbering and the merged iteration\<close>

lemma fold_set_sequence:
  "fold (\<lambda>(index, op) prog. set_sequence op index prog) steps p = map (assign_node steps) p"
proof (induction steps rule: rev_induct)
  case Nil
  show ?case by (simp add: assign_node_def)
next
  case (snoc s steps)
  obtain i op where s: "s = (i, op)" by (cases s)
  have "(if node_id x = op then (assign_node steps x)\<lparr>sequence_hint := Some i\<rparr> else assign_node steps x)
      = assign_node (steps @ [(i, op)]) x" for x
    by (auto simp: assign_node_def split: list.splits)
  then show ?case
    using snoc by (simp add: s set_sequence_def assign_node_def [of steps] comp_def)
      (simp add: assign_node_def split: list.splits)
qed


lemma assign_node_id [simp]: "node_id (assign_node steps x) = node_id x"
  by (simp add: assign_node_def split: list.splits)

lemma assign_node_idem: "assign_node steps (assign_node steps x) = assign_node steps x"
  by (simp add: assign_node_def split: list.splits)

lemma assign_node_erased:
  "(assign_node steps x)\<lparr>sequence_hint := None\<rparr> = x\<lparr>sequence_hint := None\<rparr>"
  by (simp add: assign_node_def split: list.splits)

lemma AssignInferred_map:
  "AssignInferred sa p
   = map (assign_node (zip (map int [0..<length (sequenced_ops sa)]) (map snd (sequenced_ops sa)))) p"
  by (simp add: AssignInferred_def fold_set_sequence)

lemma AssignInferred_idem: "AssignInferred sa (AssignInferred sa p) = AssignInferred sa p"
  by (simp add: AssignInferred_map assign_node_idem)

lemma AssignInferred_erased:
  "map (\<lambda>x. x\<lparr>sequence_hint := None\<rparr>) (AssignInferred sa p) = map (\<lambda>x. x\<lparr>sequence_hint := None\<rparr>) p"
  by (simp add: AssignInferred_map assign_node_erased)

lemma find_map_node:
  "find (\<lambda>x. node_id x = op) (map (assign_node steps) p)
   = map_option (assign_node steps) (find (\<lambda>x. node_id x = op) p)"
  by (induction p) simp_all

lemma assign_node_position:
  assumes dist: "distinct (map snd seq)" and i: "i < length seq" and x: "node_id x = snd (seq ! i)"
  shows "sequence_hint (assign_node (zip (map int [0..<length seq]) (map snd seq)) x) = Some (int i)"
proof -
  let ?steps = "zip (map int [0..<length seq]) (map snd seq)"
  let ?ms = "filter (\<lambda>s. snd s = node_id x) ?steps"
  have nth: "?steps ! j = (int j, snd (seq ! j))" if "j < length seq" for j
    using that by simp
  have "?steps ! i \<in> set ?steps" using i by (intro nth_mem) simp
  then have "(int i, snd (seq ! i)) \<in> set ?ms" using nth [OF i] x by simp
  then have ne: "?ms \<noteq> []" by (metis empty_iff empty_set)
  have all: "s = (int i, snd (seq ! i))" if "s \<in> set ?ms" for s
  proof -
    from that have "s \<in> set ?steps" "snd s = snd (seq ! i)" using x by simp_all
    then obtain j where j: "j < length seq" "s = ?steps ! j"
      by (auto simp: in_set_conv_nth)
    with nth [OF j(1)] \<open>snd s = snd (seq ! i)\<close> have "map snd seq ! j = map snd seq ! i"
      using i by simp
    then have "j = i" using dist i j(1) nth_eq_iff_index_eq [of "map snd seq" j i] by simp
    then show ?thesis using j nth [OF i] by simp
  qed
  from ne have "last ?ms \<in> set ?ms" by (rule last_in_set)
  then have l: "fst (last ?ms) = int i" using all by fastforce
  from ne obtain m ms' where ms: "?ms = m # ms'" by (cases ?ms) auto
  have "sequence_hint (assign_node ?steps x) = Some (fst (last (m # ms')))"
    unfolding assign_node_def ms by simp
  then show ?thesis using l unfolding ms by simp
qed

lemma AssignInferred_position:
  assumes "distinct (map snd (sequenced_ops sa))" and "i < length (sequenced_ops sa)"
    and "snd (sequenced_ops sa ! i) \<in> node_id ` set p"
  shows "hint_of (AssignInferred sa p) (snd (sequenced_ops sa ! i)) = Some (int i)"
proof -
  let ?op = "snd (sequenced_ops sa ! i)"
  from assms(3) obtain x where "find (\<lambda>x. node_id x = ?op) p = Some x"
    by (cases "find (\<lambda>x. node_id x = ?op) p") (auto simp: find_None_iff)
  moreover from this have "node_id x = ?op" by (auto simp: find_Some_iff)
  ultimately show ?thesis
    using assign_node_position [OF assms(1,2)]
    by (simp add: hint_of_def AssignInferred_map find_map_node)
qed

lemma visit_within_entry:
  assumes i: "i < length (sequenced_ops sa)"
  shows "pos \<le> length (implicit (fst (sequenced_ops sa ! i))) \<Longrightarrow>
    visit_from implicit sa (iterator_at implicit sa i pos)
    = Option.bind (visit_from implicit sa (iterator_at implicit sa (Suc i) 0))
        (\<lambda>rest. Some (drop pos (snd (sequenced_ops sa ! i) # implicit (fst (sequenced_ops sa ! i)))
                        @ rest))"
proof (induction "length (implicit (fst (sequenced_ops sa ! i))) - pos" arbitrary: pos)
  case 0
  let ?L = "implicit (fst (sequenced_ops sa ! i))"
  let ?op = "snd (sequenced_ops sa ! i)"
  from 0 have pos: "pos = length ?L" by simp
  have ne: "\<not> iterator_equal (iterator_at implicit sa i pos) (iterator_end sa)"
    using i by (simp add: iterator_equal_def iterator_at_def iterator_end_def)
  have inc: "increment implicit sa (iterator_at implicit sa i pos) = iterator_at implicit sa (Suc i) 0"
    using i pos
    by (auto simp: increment_def iterator_at_def RepopulateImplicitlySequenced_def iterator_end_def)
  have der: "dereference sa (iterator_at implicit sa i pos) = (?op # ?L) ! pos"
    using i by (cases pos) (simp_all add: dereference_def iterator_at_def)
  have "drop pos (?op # ?L) = [(?op # ?L) ! pos]"
    using pos by (metis Cons_nth_drop_Suc drop_all length_Cons lessI order_refl)
  then show ?case
    by (subst visit_from.simps) (simp add: ne inc der)
next
  case (Suc k)
  let ?L = "implicit (fst (sequenced_ops sa ! i))"
  let ?op = "snd (sequenced_ops sa ! i)"
  from Suc.hyps(2) have pos: "pos < length ?L" by simp
  have ne: "\<not> iterator_equal (iterator_at implicit sa i pos) (iterator_end sa)"
    using i by (simp add: iterator_equal_def iterator_at_def iterator_end_def)
  have inc: "increment implicit sa (iterator_at implicit sa i pos) = iterator_at implicit sa i (Suc pos)"
    using i pos by (simp add: increment_def iterator_at_def)
  have der: "dereference sa (iterator_at implicit sa i pos) = (?op # ?L) ! pos"
    using i by (cases pos) (simp_all add: dereference_def iterator_at_def)
  have dr: "drop pos (?op # ?L) = (?op # ?L) ! pos # drop (Suc pos) (?op # ?L)"
    using pos by (intro Cons_nth_drop_Suc [symmetric]) simp
  have "k = length ?L - Suc pos" using Suc.hyps(2) by simp
  from Suc.hyps(1) [OF this] pos
  have ih: "visit_from implicit sa (iterator_at implicit sa i (Suc pos))
    = Option.bind (visit_from implicit sa (iterator_at implicit sa (Suc i) 0))
        (\<lambda>rest. Some (drop (Suc pos) (?op # ?L) @ rest))"
    by simp
  show ?case
    by (subst visit_from.simps) (simp add: ne inc der ih dr del: drop_Suc_Cons)
qed

lemma visit_from_entry:
  "i \<le> length (sequenced_ops sa) \<Longrightarrow>
   visit_from implicit sa (iterator_at implicit sa i 0)
   = Some (concat (map (\<lambda>e. snd e # implicit (fst e)) (drop i (sequenced_ops sa))))"
proof (induction "length (sequenced_ops sa) - i" arbitrary: i)
  case 0
  then have "i = length (sequenced_ops sa)" by simp
  then show ?case
    by (subst visit_from.simps) (simp add: iterator_at_def iterator_equal_def)
next
  case (Suc k)
  then have i: "i < length (sequenced_ops sa)" by simp
  have "k = length (sequenced_ops sa) - Suc i" using Suc.hyps(2) by simp
  from Suc.hyps(1) [OF this] i
  have ih: "visit_from implicit sa (iterator_at implicit sa (Suc i) 0)
     = Some (concat (map (\<lambda>e. snd e # implicit (fst e)) (drop (Suc i) (sequenced_ops sa))))"
    by simp
  have "drop i (sequenced_ops sa) = sequenced_ops sa ! i # drop (Suc i) (sequenced_ops sa)"
    using i by (rule Cons_nth_drop_Suc [symmetric])
  then show ?case
    using visit_within_entry [OF i, of 0 implicit] ih by simp
qed

lemma AllOps_closed_form:
  "AllOps implicit sa = Some (concat (map (\<lambda>e. snd e # implicit (fst e)) (sequenced_ops sa)))"
proof -
  have "iterator_begin implicit sa = iterator_at implicit sa 0 0"
    by (simp add: iterator_begin_def iterator_at_def RepopulateImplicitlySequenced_def
        iterator_end_def)
  then show ?thesis using visit_from_entry [of 0 sa implicit] by (simp add: AllOps_def)
qed

text \<open>
  C8. \<^verbatim>\<open>AssignInferred\<close> is idempotent: a second call right after the first leaves the
  program as the first left it, so every operation carries the same hint after the one and
  after the other; when no operation is sequenced twice, that hint is the position of the
  operation in the index, counted from 0. The operations stay in their order, the analysis
  itself is not written, and \<^verbatim>\<open>AllOps()\<close> visits the same operations in the same order
  before and after either call (each entry of the index followed by the operations
  implicitly sequenced after it), provided that what is implicitly sequenced after an
  entry does not depend on the hints.
\<close>

theorem AssignInferred_idempotent:
  assumes "distinct (map snd (sequenced_ops sa))"
    and "\<forall>q q'. map (\<lambda>x. x\<lparr>sequence_hint := None\<rparr>) q = map (\<lambda>x. x\<lparr>sequence_hint := None\<rparr>) q'
           \<longrightarrow> implicit q = implicit q'"
  shows "AssignInferred sa (AssignInferred sa p) = AssignInferred sa p
       \<and> (\<forall>op. hint_of (AssignInferred sa (AssignInferred sa p)) op
                 = hint_of (AssignInferred sa p) op)
       \<and> (\<forall>i<length (sequenced_ops sa).
             snd (sequenced_ops sa ! i) \<in> node_id ` set p \<longrightarrow>
             hint_of (AssignInferred sa p) (snd (sequenced_ops sa ! i)) = Some (int i))
       \<and> map node_id (AssignInferred sa p) = map node_id p
       \<and> AllOps (implicit (AssignInferred sa p)) sa = AllOps (implicit p) sa
       \<and> AllOps (implicit (AssignInferred sa (AssignInferred sa p))) sa = AllOps (implicit p) sa
       \<and> AllOps (implicit p) sa
           = Some (concat (map (\<lambda>e. snd e # implicit p (fst e)) (sequenced_ops sa)))"
proof -
  have idem: "AssignInferred sa (AssignInferred sa p) = AssignInferred sa p"
    by (rule AssignInferred_idem)
  have same: "implicit (AssignInferred sa p) = implicit p"
    using assms(2) AssignInferred_erased [of sa p] by blast
  have ids: "map node_id (AssignInferred sa p) = map node_id p"
    by (simp add: AssignInferred_map)
  show ?thesis
    using idem same ids AssignInferred_position [OF assms(1)] AllOps_closed_form [of "implicit p" sa]
    by simp
qed

lemma ex_implicit_erased:
  "ex_implicit (map (\<lambda>x. x\<lparr>sequence_hint := None\<rparr>) q) = ex_implicit q"
  by (rule ext) (simp add: ex_implicit_def filter_map comp_def)

theorem AssignInferred_idempotent_witness:
  "AssignInferred ex_analysis (AssignInferred ex_analysis ex_feedback)
     = AssignInferred ex_analysis ex_feedback
   \<and> hint_of ex_feedback 1 = Some 7
   \<and> hint_of (AssignInferred ex_analysis ex_feedback) 1 = Some 0
   \<and> hint_of (AssignInferred ex_analysis ex_feedback) 2 = Some 1
   \<and> AllOps (ex_implicit ex_feedback) ex_analysis = Some [1, 4, 2]
   \<and> AllOps (ex_implicit (AssignInferred ex_analysis ex_feedback)) ex_analysis = Some [1, 4, 2]"
proof -
  have d: "distinct (map snd (sequenced_ops ex_analysis))" by (simp add: ex_analysis_def)
  have ign: "\<forall>q q'. map (\<lambda>x. x\<lparr>sequence_hint := None\<rparr>) q = map (\<lambda>x. x\<lparr>sequence_hint := None\<rparr>) q'
           \<longrightarrow> ex_implicit q = ex_implicit q'"
    by (metis ex_implicit_erased)
  note inst = AssignInferred_idempotent [OF d ign, of ex_feedback]
  have h: "hint_of ex_feedback 1 = Some 7" by code_simp
  have seq: "sequenced_ops ex_analysis = [(0, 1), (1, 2)]" by (simp add: ex_analysis_def)
  have ids: "node_id ` set ex_feedback = {1, 3, 2, 4}" by (simp add: ex_feedback_def)
  have im: "ex_implicit ex_feedback 0 = [4]" "ex_implicit ex_feedback 1 = []" by code_simp+
  from inst have pos: "\<forall>i<length (sequenced_ops ex_analysis).
             snd (sequenced_ops ex_analysis ! i) \<in> node_id ` set ex_feedback \<longrightarrow>
             hint_of (AssignInferred ex_analysis ex_feedback) (snd (sequenced_ops ex_analysis ! i))
               = Some (int i)"
    by blast
  have p0: "hint_of (AssignInferred ex_analysis ex_feedback) 1 = Some 0"
    using pos [rule_format, of 0] ids by (simp add: seq)
  have p1: "hint_of (AssignInferred ex_analysis ex_feedback) 2 = Some 1"
    using pos [rule_format, of 1] ids by (simp add: seq)
  from inst have all: "AllOps (ex_implicit ex_feedback) ex_analysis = Some [1, 4, 2]"
    by (simp add: seq im)
  show ?thesis using inst h p0 p1 all by (simp add: seq)
qed

text \<open>
  A loop over \<^verbatim>\<open>AllOps()\<close> ends, and visits each entry of the ordered index in order,
  the operation of the entry first and then the operations implicitly sequenced after its
  sequence number.
\<close>

theorem AllOps_visits_entries_in_order:
  "AllOps implicit sa
   = Some (concat (map (\<lambda>e. snd e # implicit (fst e)) (sequenced_ops sa)))"
proof -
  have "iterator_begin implicit sa = iterator_at implicit sa 0 0"
    by (simp add: iterator_begin_def iterator_at_def RepopulateImplicitlySequenced_def
        iterator_end_def)
  then show ?thesis using visit_from_entry [of 0 sa implicit] by (simp add: AllOps_def)
qed


section \<open>Rematerialization: the rebuilt loop nest\<close>

lemma rebuild_loop_nest_length:
  "rebuild_loop_nest ml np k pos ln = Inr (ln', extra) \<Longrightarrow>
   length ln' = length ln \<and> length extra = length (filter (\<lambda>l. iter_Rematerialize (iter l)) ln)"
proof (induction ln arbitrary: pos ln' extra)
  case Nil
  then show ?case by simp
next
  case (Cons l ls)
  show ?case
  proof (cases "iter l")
    case Remat
    with Cons.prems obtain b ls' ex where
      "ml (name l) = Some b" "rebuild_loop_nest ml np k (Suc pos) ls = Inr (ls', ex)"
      "ln' = \<lparr>name = name l, iter = Iter pos (step_b b)\<rparr> # ls'" "extra = range_b b # ex"
      by (auto split: option.splits sum.splits)
    with Cons.IH [of "Suc pos" ls' ex] Remat show ?thesis by simp
  next
    case (Iter d s)
    with Cons.prems obtain ls' where
      "rebuild_loop_nest ml np k pos ls = Inr (ls', extra)"
      "ln' = (if d \<ge> np then \<lparr>name = name l, iter = Iter (d + k) s\<rparr> else l) # ls'"
      by (auto split: sum.splits)
    with Cons.IH [of pos ls' extra] Iter show ?thesis by simp
  qed
qed

lemma rebuild_loop_nest_nth:
  "rebuild_loop_nest ml np k pos ln = Inr (ln', extra) \<Longrightarrow> i < length ln \<Longrightarrow>
   name (ln' ! i) = name (ln ! i) \<and>
   (case iter (ln ! i) of
      Iter d s \<Rightarrow> iter (ln' ! i) = Iter (if np \<le> d then d + k else d) s
    | Remat \<Rightarrow> (\<exists>b. ml (name (ln ! i)) = Some b
                 \<and> iter (ln' ! i) = Iter (pos + remat_before ln i) (step_b b)))"
proof (induction ln arbitrary: pos ln' extra i)
  case Nil
  then show ?case by simp
next
  case (Cons l ls)
  show ?case
  proof (cases "iter l")
    case Remat
    with Cons.prems obtain b ls' ex where *:
      "ml (name l) = Some b" "rebuild_loop_nest ml np k (Suc pos) ls = Inr (ls', ex)"
      "ln' = \<lparr>name = name l, iter = Iter pos (step_b b)\<rparr> # ls'"
      by (auto split: option.splits sum.splits)
    show ?thesis
    proof (cases i)
      case 0
      then show ?thesis using * Remat by (simp add: remat_before_def)
    next
      case (Suc j)
      then have "j < length ls" using Cons.prems(2) by simp
      from Cons.IH [OF *(2) this] show ?thesis
        using Suc * Remat by (simp add: remat_before_def split: iterator.splits)
    qed
  next
    case (Iter d s)
    with Cons.prems obtain ls' where *:
      "rebuild_loop_nest ml np k pos ls = Inr (ls', extra)"
      "ln' = (if d \<ge> np then \<lparr>name = name l, iter = Iter (d + k) s\<rparr> else l) # ls'"
      by (auto split: sum.splits)
    show ?thesis
    proof (cases i)
      case 0
      then show ?thesis using * Iter by simp
    next
      case (Suc j)
      then have "j < length ls" using Cons.prems(2) by simp
      from Cons.IH [OF *(1) this] show ?thesis
        using Suc * Iter by (simp add: remat_before_def split: iterator.splits)
    qed
  qed
qed

lemma rebuild_loop_nest_extra:
  "rebuild_loop_nest ml np k pos ln = Inr (ln', extra) \<Longrightarrow>
   map Some extra = map (\<lambda>l. map_option range_b (ml (name l))) (filter (\<lambda>l. iter_Rematerialize (iter l)) ln)"
proof (induction ln arbitrary: pos ln' extra)
  case Nil
  then show ?case by simp
next
  case (Cons l ls)
  show ?case
  proof (cases "iter l")
    case Remat
    with Cons.prems obtain b ls' ex where *:
      "ml (name l) = Some b" "rebuild_loop_nest ml np k (Suc pos) ls = Inr (ls', ex)"
      "extra = range_b b # ex"
      by (auto split: option.splits sum.splits)
    with Cons.IH [OF *(2)] Remat show ?thesis by simp
  next
    case (Iter d s)
    with Cons.prems obtain ls' where *:
      "rebuild_loop_nest ml np k pos ls = Inr (ls', extra)"
      by (auto split: sum.splits)
    with Cons.IH [OF *(1)] Iter show ?thesis by simp
  qed
qed

lemma rebuild_loop_nest_succeeds:
  "(\<forall>l \<in> set ln. iter_Rematerialize (iter l) \<longrightarrow> ml (name l) \<noteq> None) \<Longrightarrow>
   \<exists>ln' extra. rebuild_loop_nest ml np k pos ln = Inr (ln', extra)"
proof (induction ln arbitrary: pos)
  case Nil
  then show ?case by simp
next
  case (Cons l ls)
  then obtain ls' ex where "rebuild_loop_nest ml np k pos ls = Inr (ls', ex)" by fastforce
  moreover from Cons obtain ls2 ex2 where "rebuild_loop_nest ml np k (Suc pos) ls = Inr (ls2, ex2)" by fastforce
  ultimately show ?case using Cons.prems by (cases "iter l") auto
qed

section \<open>Rematerialization: the program after a successful call\<close>

lemma fresh_id_Max: "fresh_id p = Suc (Max (insert 0 (op_id ` set p)))"
proof -
  have "fold max (map op_id p) 0 = Max (set (0 # map op_id p))"
    by (rule Max.set_eq_fold [symmetric])
  then show ?thesis by (simp add: fresh_id_def)
qed

lemma fresh_id_greater: "x \<in> set p \<Longrightarrow> op_id x < fresh_id p"
  by (simp add: fresh_id_Max less_Suc_eq_le)

lemma fresh_id_top:
  assumes "x \<in> set q" and "\<And>y. y \<in> set q \<Longrightarrow> op_id y \<le> op_id x"
  shows "fresh_id q = Suc (op_id x)"
proof -
  have "Max (insert 0 (op_id ` set q)) = op_id x"
    using assms by (intro Max_eqI) auto
  then show ?thesis by (simp add: fresh_id_Max)
qed

lemma insert_before_first:
  "op_id x = oid \<Longrightarrow> oid \<notin> op_id ` set pre \<Longrightarrow>
   insert_before oid new (pre @ x # post) = pre @ new # x # post"
  by (induction pre) auto

lemma redirect_value_step:
  assumes "oid < fp"
  shows "replace_value (OpResult oid j) (OpResult (fp + j) 0) (redirect_value oid fp j v)
         = redirect_value oid fp (Suc j) v"
  using assms by (cases v) (auto simp: replace_value_def redirect_value_def less_Suc_eq)

lemma redirect_uses_step:
  assumes "oid < fp"
  shows "(\<lambda>x. x\<lparr>inits := map (replace_value (OpResult oid j) (OpResult (fp + j) 0)) (inits x),
                 inputs := map (replace_value (OpResult oid j) (OpResult (fp + j) 0)) (inputs x)\<rparr>)
           (redirect_uses oid fp j x)
         = redirect_uses oid fp (Suc j) x"
  using assms by (simp add: redirect_uses_def redirect_value_step comp_def)

lemma redirect_uses_0: "redirect_uses oid fp 0 x = x"
proof -
  have "redirect_value oid fp 0 = id" by (rule ext) (simp add: redirect_value_def split: val.splits)
  then show ?thesis by (simp add: redirect_uses_def)
qed

lemma redirect_uses_fields [simp]:
  "op_id (redirect_uses oid fp n x) = op_id x"
  "kind (redirect_uses oid fp n x) = kind x"
  "parallel_domain (redirect_uses oid fp n x) = parallel_domain x"
  "other_domain (redirect_uses oid fp n x) = other_domain x"
  "shape (redirect_uses oid fp n x) = shape x"
  "loop_nest (redirect_uses oid fp n x) = loop_nest x"
  "result_types (redirect_uses oid fp n x) = result_types x"
  "access_pattern_array (redirect_uses oid fp n x) = access_pattern_array x"
  "memory_space (redirect_uses oid fp n x) = memory_space x"
  "body (redirect_uses oid fp n x) = body x"
  by (simp_all add: redirect_uses_def)

lemma projection_untouched:
  assumes "new_id \<noteq> oid"
  shows "(\<lambda>x. x\<lparr>inits := map (replace_value (OpResult oid j) w) (inits x),
                 inputs := map (replace_value (OpResult oid j) w) (inputs x)\<rparr>)
           (make_projection op new_id r pid i)
         = make_projection op new_id r pid i"
  using assms by (simp add: make_projection_def replace_value_def)

text \<open>The program after the new operation and \<open>j\<close> projections have been created.\<close>

lemma project_results_fold:
  assumes pre: "op_id op \<notin> op_id ` set pre"
    and f: "f = fresh_id (pre @ op # post)"
    and new: "op_id new = f"
  shows "fold (project_result op f r) [0..<j] (pre @ new # op # post)
         = map (redirect_uses (op_id op) (Suc f) j) pre
           @ redirect_uses (op_id op) (Suc f) j new
           # map (\<lambda>i. make_projection op f r (Suc f + i) i) [0..<j]
           @ redirect_uses (op_id op) (Suc f) j op
           # map (redirect_uses (op_id op) (Suc f) j) post"
proof (induction j)
  case 0
  show ?case by (simp add: redirect_uses_0 cong: map_cong)
next
  case (Suc j)
  let ?oid = "op_id op"
  let ?rho = "redirect_uses ?oid (Suc f) j"
  let ?projs = "map (\<lambda>i. make_projection op f r (Suc f + i) i) [0..<j]"
  let ?q = "map ?rho pre @ ?rho new # ?projs @ ?rho op # map ?rho post"
  have lt: "?oid < f" using f by (simp add: fresh_id_greater)
  have below: "\<And>y. y \<in> set (pre @ op # post) \<Longrightarrow> op_id y < f"
    using f by (simp add: fresh_id_greater)
  have fresh: "fresh_id ?q = Suc f + j"
  proof (cases j)
    case 0
    have "fresh_id ?q = Suc (op_id (?rho new))"
      using below 0 new by (intro fresh_id_top) (auto simp: less_imp_le)
    then show ?thesis using 0 new by simp
  next
    case (Suc k)
    let ?last = "make_projection op f r (Suc f + k) k"
    have "fresh_id ?q = Suc (op_id ?last)"
    proof (rule fresh_id_top)
      show "?last \<in> set ?q" using Suc by auto
    next
      fix y assume "y \<in> set ?q"
      then show "op_id y \<le> op_id ?last"
        using below new Suc by (auto simp: make_projection_def less_Suc_eq_le) force+
    qed
    then show ?thesis using Suc by (simp add: make_projection_def)
  qed
  have ins: "insert_before ?oid (make_projection op f r (Suc f + j) j) ?q
      = (map ?rho pre @ ?rho new # ?projs) @ make_projection op f r (Suc f + j) j # ?rho op # map ?rho post"
  proof -
    have "?oid \<notin> op_id ` set (map ?rho pre @ ?rho new # ?projs)"
      using pre lt new by (auto simp: make_projection_def)
    from insert_before_first [OF _ this, of "?rho op"] show ?thesis by simp
  qed
  have "fold (project_result op f r) [0..<Suc j] (pre @ new # op # post)
      = project_result op f r j ?q"
    using Suc.IH by simp
  also have "\<dots> = replaceAllUsesWith (OpResult ?oid j) (OpResult (Suc f + j) 0)
      ((map ?rho pre @ ?rho new # ?projs) @ make_projection op f r (Suc f + j) j # ?rho op # map ?rho post)"
    using fresh ins by (simp add: project_result_def Let_def make_projection_def)
  also have "\<dots> = map (redirect_uses ?oid (Suc f) (Suc j)) pre
           @ redirect_uses ?oid (Suc f) (Suc j) new
           # map (\<lambda>i. make_projection op f r (Suc f + i) i) [0..<Suc j]
           @ redirect_uses ?oid (Suc f) (Suc j) op
           # map (redirect_uses ?oid (Suc f) (Suc j)) post"
    using lt redirect_uses_step [of ?oid "Suc f" j] projection_untouched [of f ?oid j _ op r]
    by (simp add: replaceAllUsesWith_def less_Suc_eq)
  finally show ?case .
qed

lemma Rematerialize_Success_iff:
  "Rematerialize ml op p = (Success, p') \<longleftrightarrow>
   (\<exists>r new. rebuild_attributes ml op = Inr r
      \<and> RecreateOp (fresh_id p) op (r_new_types r) (r_extra_domain r) (r_loop_nest_array r)
            (r_domain_shape r) = Inr (Some new)
      \<and> p' = erase_operation (op_id op)
                (fold (project_result op (op_id new) r) [0..<length (r_new_types r)]
                   (insert_before (op_id op) new p)))"
  by (auto simp: Rematerialize_def split: sum.splits option.splits)

lemma RecreateOp_id:
  "RecreateOp new_id op tys extra lna ds = Inr (Some new) \<Longrightarrow> op_id new = new_id"
  by (auto simp: RecreateOp_def split: op_kind.splits if_splits)

lemma erase_untouched: "oid \<notin> op_id ` set xs \<Longrightarrow> erase_operation oid xs = xs"
  by (induction xs) (auto simp: erase_operation_def)

lemma Rematerialize_program:
  assumes p: "p = pre @ op # post"
    and dist: "distinct (map op_id p)"
    and r: "rebuild_attributes ml op = Inr r"
    and new: "RecreateOp (fresh_id p) op (r_new_types r) (r_extra_domain r) (r_loop_nest_array r)
            (r_domain_shape r) = Inr (Some new)"
  shows "Rematerialize ml op p =
     (Success,
      map (redirect_uses (op_id op) (Suc (fresh_id p)) (length (r_new_types r))) pre
      @ redirect_uses (op_id op) (Suc (fresh_id p)) (length (r_new_types r)) new
      # map (\<lambda>i. make_projection op (fresh_id p) r (Suc (fresh_id p) + i) i) [0..<length (r_new_types r)]
      @ map (redirect_uses (op_id op) (Suc (fresh_id p)) (length (r_new_types r))) post)"
proof -
  let ?f = "fresh_id p" and ?n = "length (r_new_types r)" and ?oid = "op_id op"
  let ?rho = "redirect_uses ?oid (Suc ?f) ?n"
  let ?projs = "map (\<lambda>i. make_projection op ?f r (Suc ?f + i) i) [0..<?n]"
  have pre: "?oid \<notin> op_id ` set pre" and post: "?oid \<notin> op_id ` set post"
    using dist p by auto
  have id: "op_id new = ?f" using new by (rule RecreateOp_id)
  have lt: "?oid < ?f" using p by (simp add: fresh_id_greater)
  have "insert_before ?oid new p = pre @ new # op # post"
    using insert_before_first [OF refl pre] p by simp
  then have "fold (project_result op (op_id new) r) [0..<?n] (insert_before ?oid new p)
      = map ?rho pre @ ?rho new # ?projs @ ?rho op # map ?rho post"
    using project_results_fold [OF pre _ id, of post r ?n] p id by simp
  moreover have "erase_operation ?oid (map ?rho pre @ ?rho new # ?projs @ ?rho op # map ?rho post)
      = map ?rho pre @ ?rho new # ?projs @ map ?rho post"
  proof -
    have "erase_operation ?oid (map ?rho pre) = map ?rho pre"
      using pre by (intro erase_untouched) auto
    moreover have "erase_operation ?oid (map ?rho post) = map ?rho post"
      using post by (intro erase_untouched) auto
    moreover have "erase_operation ?oid ?projs = ?projs"
      using lt by (intro erase_untouched) (auto simp: make_projection_def)
    ultimately show ?thesis
      using lt id by (simp add: erase_operation_def)
  qed
  ultimately show ?thesis
    using r new by (simp add: Rematerialize_def)
qed

text \<open>What a successful rebuild of the attributes has computed.\<close>

lemma remat_indices_length:
  "length (filter (\<lambda>i. P (xs ! i)) [0..<length xs]) = length (filter P xs)"
proof -
  have "filter P (map ((!) xs) [0..<length xs]) = map ((!) xs) (filter (P \<circ> (!) xs) [0..<length xs])"
    by (rule filter_map)
  then have "filter P xs = map ((!) xs) (filter (\<lambda>i. P (xs ! i)) [0..<length xs])"
    by (simp add: map_nth comp_def)
  then show ?thesis by (metis length_map)
qed

lemma remat_count:
  "length (filter (\<lambda>i. iter_Rematerialize (iter (ln ! i))) [0..<length ln])
   = length (filter (\<lambda>l. iter_Rematerialize (iter l)) ln)"
  using remat_indices_length [of "\<lambda>l. iter_Rematerialize (iter l)" ln] by simp

lemma map_abort_Inr:
  "map_abort f xs = Inr ys \<Longrightarrow> length ys = length xs \<and> (\<forall>k<length xs. f (xs ! k) = Inr (ys ! k))"
proof (induction xs arbitrary: ys)
  case Nil
  then show ?case by simp
next
  case (Cons x xs)
  then obtain y ys' where *: "f x = Inr y" "map_abort f xs = Inr ys'" "ys = y # ys'"
    by (auto split: sum.splits)
  from Cons.IH [OF *(2)] * show ?case by (auto simp: nth_Cons')
qed

lemma rebuild_attributes_Inr:
  assumes "rebuild_attributes ml op = Inr r"
  shows "\<exists>inserted.
     ParallelDomain op = Inr (r_parallel_domain r)
   \<and> rebuild_loop_nest ml (length (r_parallel_domain r))
        (length (filter (\<lambda>l. iter_Rematerialize (iter l)) (LoopNestLoops op)))
        (length (r_parallel_domain r)) (LoopNestLoops op)
       = Inr (r_loop_nest_array r, r_extra_domain r)
   \<and> map_abort (inserted_dim ml (r_loop_nest_array r)
         (RangeType (HyperRectangular (length (shape op)
             + length (filter (\<lambda>l. iter_Rematerialize (iter l)) (LoopNestLoops op))))))
        (filter (\<lambda>i. iter_Rematerialize (iter (LoopNestLoops op ! i))) [0..<length (LoopNestLoops op)])
       = Inr inserted
   \<and> length (r_parallel_domain r) \<le> length (shape op)
   \<and> r_domain_shape r =
       take (length (r_parallel_domain r)) (shape op) @ inserted
       @ map (\<lambda>dim. (RangeType (HyperRectangular (length (shape op)
                        + length (filter (\<lambda>l. iter_Rematerialize (iter l)) (LoopNestLoops op)))),
                     ShiftRight (length (filter (\<lambda>l. iter_Rematerialize (iter l)) (LoopNestLoops op)))
                       (length (r_parallel_domain r)) (dependency_pattern dim)))
           (drop (length (r_parallel_domain r)) (shape op))
   \<and> r_new_types r = AdaptTypesToShape (result_types op)
        (Prefix (length (r_parallel_domain r)
                 + length (filter (\<lambda>l. iter_Rematerialize (iter l)) (LoopNestLoops op)))
           (r_domain_shape r))"
  using assms
  by (auto simp: rebuild_attributes_def Let_def remat_count
      split: sum.splits prod.splits if_splits)

lemma Rematerialize_replacement:
  assumes p: "p = pre @ op # post"
    and dist: "distinct (map op_id p)"
    and ok: "Rematerialize ml op p = (Success, p')"
  shows "\<exists>r new.
      rebuild_attributes ml op = Inr r
    \<and> RecreateOp (fresh_id p) op (r_new_types r) (r_extra_domain r) (r_loop_nest_array r)
         (r_domain_shape r) = Inr (Some new)
    \<and> p' = map (redirect_uses (op_id op) (Suc (fresh_id p)) (length (r_new_types r))) pre
          @ redirect_uses (op_id op) (Suc (fresh_id p)) (length (r_new_types r)) new
          # map (\<lambda>i. make_projection op (fresh_id p) r (Suc (fresh_id p) + i) i)
              [0..<length (r_new_types r)]
          @ map (redirect_uses (op_id op) (Suc (fresh_id p)) (length (r_new_types r))) post
    \<and> p' ! length pre = redirect_uses (op_id op) (Suc (fresh_id p)) (length (r_new_types r)) new"
proof -
  from ok obtain r new where r: "rebuild_attributes ml op = Inr r"
    and new: "RecreateOp (fresh_id p) op (r_new_types r) (r_extra_domain r) (r_loop_nest_array r)
         (r_domain_shape r) = Inr (Some new)"
    unfolding Rematerialize_Success_iff by blast
  from Rematerialize_program [OF p dist r new] ok
  have p': "p' = map (redirect_uses (op_id op) (Suc (fresh_id p)) (length (r_new_types r))) pre
          @ redirect_uses (op_id op) (Suc (fresh_id p)) (length (r_new_types r)) new
          # map (\<lambda>i. make_projection op (fresh_id p) r (Suc (fresh_id p) + i) i)
              [0..<length (r_new_types r)]
          @ map (redirect_uses (op_id op) (Suc (fresh_id p)) (length (r_new_types r))) post"
    by simp
  then have "p' ! length pre = redirect_uses (op_id op) (Suc (fresh_id p)) (length (r_new_types r)) new"
    by (simp add: nth_append)
  with r new p' show ?thesis by blast
qed

lemma RecreateOp_fields:
  assumes "RecreateOp new_id op tys extra lna ds = Inr (Some new)"
    and "ParallelDomain op = Inr par"
  shows "op_id new = new_id" "kind new = kind op" "loop_nest new = Some lna"
    "parallel_domain new = par @ extra"
    "kind op = SairCopyOp \<or> kind op = SairMapOp \<or> kind op = SairMapReduceOp"
    "kind op = SairMapReduceOp \<Longrightarrow> other_domain new = other_domain op"
    "kind op \<noteq> SairMapReduceOp \<Longrightarrow> other_domain new = []"
    "kind op = SairCopyOp \<Longrightarrow> shape new = Shape (tys ! 0) \<and> length tys = 1 \<and> result_types new = [tys ! 0]"
    "kind op \<noteq> SairCopyOp \<Longrightarrow> shape new = ds \<and> result_types new = tys"
  using assms
  by (auto simp: RecreateOp_def ParallelDomain_def split: op_kind.splits if_splits)

text \<open>
  C5. When \<^verbatim>\<open>Rematerialize\<close> succeeds on an operation with \<open>K\<close> loops to rematerialize,
  the loop nest of the replacement has the same names in the same order; an entry that was
  materialized at a dimension at or past the number of parallel dimensions has that
  dimension increased by \<open>K\<close>, an entry at a smaller dimension keeps it, and both keep
  their step; an entry that was to rematerialize gets the dimension that is the number of
  parallel dimensions plus the number of such entries before it (so these entries take
  the consecutive positions from the parallel boundary on, in their order), with the step
  recorded for its name.
\<close>

theorem Rematerialize_rebuilds_loop_nest:
  assumes "p = pre @ op # post"
    and "distinct (map op_id p)"
    and "Rematerialize ml op p = (Success, p')"
    and "i < length (LoopNestLoops op)"
  shows "\<exists>par ln'.
      ParallelDomain op = Inr par
    \<and> loop_nest (p' ! length pre) = Some ln'
    \<and> length ln' = length (LoopNestLoops op)
    \<and> name (ln' ! i) = name (LoopNestLoops op ! i)
    \<and> (case iter (LoopNestLoops op ! i) of
          Iter d s \<Rightarrow>
            iter (ln' ! i)
              = Iter (if length par \<le> d
                      then d + length (filter (\<lambda>l. iter_Rematerialize (iter l)) (LoopNestLoops op))
                      else d) s
        | Remat \<Rightarrow>
            (\<exists>b. ml (name (LoopNestLoops op ! i)) = Some b
               \<and> iter (ln' ! i)
                   = Iter (length par + remat_before (LoopNestLoops op) i) (step_b b)))"
proof -
  from Rematerialize_replacement [OF assms(1-3)] obtain r new where
    r: "rebuild_attributes ml op = Inr r"
    and new: "RecreateOp (fresh_id p) op (r_new_types r) (r_extra_domain r) (r_loop_nest_array r)
         (r_domain_shape r) = Inr (Some new)"
    and at: "p' ! length pre = redirect_uses (op_id op) (Suc (fresh_id p)) (length (r_new_types r)) new"
    by blast
  from rebuild_attributes_Inr [OF r] have
    par: "ParallelDomain op = Inr (r_parallel_domain r)"
    and rb: "rebuild_loop_nest ml (length (r_parallel_domain r))
        (length (filter (\<lambda>l. iter_Rematerialize (iter l)) (LoopNestLoops op)))
        (length (r_parallel_domain r)) (LoopNestLoops op)
       = Inr (r_loop_nest_array r, r_extra_domain r)"
    by blast+
  have ln: "loop_nest (p' ! length pre) = Some (r_loop_nest_array r)"
    using at RecreateOp_fields(3) [OF new par] by simp
  show ?thesis
    using par ln rebuild_loop_nest_length [OF rb] rebuild_loop_nest_nth [OF rb assms(4)]
    by simp
qed

lemma ex_rematerialize_succeeds:
  "Rematerialize ex_main_loops ex_pending ex_program
   = (Success, snd (Rematerialize ex_main_loops ex_pending ex_program))"
proof -
  have "fst (Rematerialize ex_main_loops ex_pending ex_program) = Success" by code_simp
  then show ?thesis by (metis prod.collapse)
qed

lemma ex_program_split: "ex_program = [ex_source] @ ex_pending # [ex_user]"
  by (simp add: ex_program_def)

lemma ex_program_distinct: "distinct (map op_id ex_program)"
  by (simp add: ex_program_def ex_source_def ex_pending_def ex_user_def)

lemma ex_pending_loops:
  "LoopNestLoops ex_pending =
     [\<lparr>name = ''a'', iter = Iter 0 1\<rparr>, \<lparr>name = ''i'', iter = Remat\<rparr>,
      \<lparr>name = ''r'', iter = Iter 1 2\<rparr>, \<lparr>name = ''j'', iter = Remat\<rparr>]"
  by (simp add: LoopNestLoops_def ex_pending_def)

lemma ex_pending_parallel: "ParallelDomain ex_pending = Inr [10]"
  by (simp add: ParallelDomain_def ex_pending_def)

theorem Rematerialize_rebuilds_loop_nest_witness:
  "fst (Rematerialize ex_main_loops ex_pending ex_program) = Success
   \<and> (\<exists>ln'. loop_nest (snd (Rematerialize ex_main_loops ex_pending ex_program) ! 1) = Some ln'
        \<and> length ln' = 4
        \<and> name (ln' ! 0) = ''a'' \<and> iter (ln' ! 0) = Iter 0 1
        \<and> name (ln' ! 1) = ''i'' \<and> iter (ln' ! 1) = Iter 1 1
        \<and> name (ln' ! 2) = ''r'' \<and> iter (ln' ! 2) = Iter 3 2
        \<and> name (ln' ! 3) = ''j'' \<and> iter (ln' ! 3) = Iter 2 3)"
proof -
  note inst = Rematerialize_rebuilds_loop_nest [OF ex_program_split ex_program_distinct
      ex_rematerialize_succeeds]
  have len: "length (LoopNestLoops ex_pending) = 4" by (simp add: ex_pending_loops)
  have "fst (Rematerialize ex_main_loops ex_pending ex_program) = Success"
    using ex_rematerialize_succeeds by (metis fst_conv)
  moreover from inst [of 0] inst [of 1] inst [of 2] inst [of 3]
  have "\<exists>ln'. loop_nest (snd (Rematerialize ex_main_loops ex_pending ex_program) ! 1) = Some ln'
        \<and> length ln' = 4
        \<and> name (ln' ! 0) = ''a'' \<and> iter (ln' ! 0) = Iter 0 1
        \<and> name (ln' ! 1) = ''i'' \<and> iter (ln' ! 1) = Iter 1 1
        \<and> name (ln' ! 2) = ''r'' \<and> iter (ln' ! 2) = Iter 3 2
        \<and> name (ln' ! 3) = ''j'' \<and> iter (ln' ! 3) = Iter 2 3"
    by (auto simp: ex_pending_loops ex_pending_parallel remat_before_def ex_main_loops_def)
  ultimately show ?thesis by blast
qed


section \<open>Rematerialization: the rebuilt domain shape\<close>

lemma replacement_shape:
  assumes new: "RecreateOp new_id op (r_new_types r) extra lna (r_domain_shape r) = Inr (Some new)"
    and r: "rebuild_attributes ml op = Inr r"
  shows "kind op \<noteq> SairCopyOp \<Longrightarrow> shape new = r_domain_shape r"
    and "kind op = SairCopyOp \<Longrightarrow>
         shape new = take (length (r_parallel_domain r)
                           + length (filter (\<lambda>l. iter_Rematerialize (iter l)) (LoopNestLoops op)))
                       (r_domain_shape r)"
proof -
  from rebuild_attributes_Inr [OF r] have par: "ParallelDomain op = Inr (r_parallel_domain r)"
    and tys: "r_new_types r = AdaptTypesToShape (result_types op)
        (Prefix (length (r_parallel_domain r)
                 + length (filter (\<lambda>l. iter_Rematerialize (iter l)) (LoopNestLoops op)))
           (r_domain_shape r))"
    by blast+
  show "kind op \<noteq> SairCopyOp \<Longrightarrow> shape new = r_domain_shape r"
    using RecreateOp_fields(9) [OF new par] by simp
  assume c: "kind op = SairCopyOp"
  from RecreateOp_fields(8) [OF new par c]
  have s: "shape new = Shape (r_new_types r ! 0)" and l: "length (r_new_types r) = 1" by simp_all
  from l tys have "0 < length (result_types op)" by (simp add: AdaptTypesToShape_def)
  then show "shape new = take (length (r_parallel_domain r)
                           + length (filter (\<lambda>l. iter_Rematerialize (iter l)) (LoopNestLoops op)))
                       (r_domain_shape r)"
    using s tys by (simp add: AdaptTypesToShape_def Prefix_def)
qed

text \<open>
  C6, as amended. When \<^verbatim>\<open>Rematerialize\<close> succeeds and inserts \<open>K\<close> dimensions, the shape
  of the replacement keeps the descriptors of the parallel dimensions. For a map or a
  map-reduce, the shape has \<open>K\<close> more descriptors, and the descriptor of each trailing
  (non-parallel) dimension stands \<open>K\<close> places further: its range type is replaced by the
  range type over the hyper-rectangular shape of all the original and inserted dimensions,
  the use domain of its dependency pattern is \<open>K\<close> larger, and a dependency index is
  increased by \<open>K\<close> when it is at or past the number of parallel dimensions and is
  unchanged when it is smaller.
\<close>

theorem Rematerialize_rebuilds_domain_shape:
  assumes "p = pre @ op # post"
    and "distinct (map op_id p)"
    and "Rematerialize ml op p = (Success, p')"
    and "K = length (filter (\<lambda>l. iter_Rematerialize (iter l)) (LoopNestLoops op))"
  shows "\<exists>par.
      ParallelDomain op = Inr par
    \<and> length par \<le> length (shape op)
    \<and> (\<forall>k<length par. shape (p' ! length pre) ! k = shape op ! k)
    \<and> (kind op \<noteq> SairCopyOp \<longrightarrow>
         length (shape (p' ! length pre)) = length (shape op) + K
       \<and> (\<forall>k. length par \<le> k \<and> k < length (shape op) \<longrightarrow>
             dim_type (shape (p' ! length pre) ! (k + K))
               = RangeType (HyperRectangular (length (shape op) + K))
           \<and> use_domain_size (dependency_pattern (shape (p' ! length pre) ! (k + K)))
               = use_domain_size (dependency_pattern (shape op ! k)) + K
           \<and> dimensions (dependency_pattern (shape (p' ! length pre) ! (k + K)))
               = map (\<lambda>d. if d < length par then d else d + K)
                   (dimensions (dependency_pattern (shape op ! k)))))"
proof -
  from Rematerialize_replacement [OF assms(1-3)] obtain r new where
    r: "rebuild_attributes ml op = Inr r"
    and new: "RecreateOp (fresh_id p) op (r_new_types r) (r_extra_domain r) (r_loop_nest_array r)
         (r_domain_shape r) = Inr (Some new)"
    and at: "p' ! length pre = redirect_uses (op_id op) (Suc (fresh_id p)) (length (r_new_types r)) new"
    by blast
  let ?par = "r_parallel_domain r"
  let ?inner = "RangeType (HyperRectangular (length (shape op) + K))"
  from rebuild_attributes_Inr [OF r] obtain inserted where
    par: "ParallelDomain op = Inr ?par"
    and ins: "map_abort (inserted_dim ml (r_loop_nest_array r) ?inner)
        (filter (\<lambda>i. iter_Rematerialize (iter (LoopNestLoops op ! i))) [0..<length (LoopNestLoops op)])
       = Inr inserted"
    and le: "length ?par \<le> length (shape op)"
    and ds: "r_domain_shape r =
       take (length ?par) (shape op) @ inserted
       @ map (\<lambda>dim. (?inner, ShiftRight K (length ?par) (dependency_pattern dim)))
           (drop (length ?par) (shape op))"
    unfolding assms(4) by blast
  have li: "length inserted = K"
    using map_abort_Inr [OF ins] by (simp add: remat_count assms(4))
  have sh: "shape (p' ! length pre) = shape new" using at by simp
  have front: "shape new ! k = shape op ! k" if "k < length ?par" for k
  proof (cases "kind op = SairCopyOp")
    case True
    from replacement_shape(2) [OF new r True] that le show ?thesis
      by (simp add: ds nth_append)
  next
    case False
    from replacement_shape(1) [OF new r False] that le show ?thesis
      by (simp add: ds nth_append)
  qed
  have trail: "shape new ! (k + K)
      = (?inner, ShiftRight K (length ?par) (dependency_pattern (shape op ! k)))"
    if "kind op \<noteq> SairCopyOp" "length ?par \<le> k" "k < length (shape op)" for k
  proof -
    have "\<not> k + K < length ?par" using that(2) by simp
    moreover have "k + K - length ?par - K = k - length ?par" by simp
    moreover have "\<not> k + K - length ?par < K" using that(2) by simp
    ultimately show ?thesis
      using replacement_shape(1) [OF new r that(1)] that le li
      by (simp add: ds nth_append min_absorb2)
  qed
  have len: "length (shape new) = length (shape op) + K" if "kind op \<noteq> SairCopyOp"
    using replacement_shape(1) [OF new r that] le li by (simp add: ds min_absorb2)
  show ?thesis
    using par le front trail len
    by (simp add: sh dim_type_def dependency_pattern_def ShiftRight_def)
qed

theorem Rematerialize_rebuilds_domain_shape_witness:
  "fst (Rematerialize ex_main_loops ex_pending ex_program) = Success
   \<and> ParallelDomain ex_pending = Inr [10]
   \<and> shape (snd (Rematerialize ex_main_loops ex_pending ex_program) ! 1) ! 0 = shape ex_pending ! 0
   \<and> length (shape (snd (Rematerialize ex_main_loops ex_pending ex_program) ! 1)) = 4
   \<and> dim_type (shape (snd (Rematerialize ex_main_loops ex_pending ex_program) ! 1) ! 3)
       = RangeType (HyperRectangular 4)
   \<and> dependency_pattern (shape (snd (Rematerialize ex_main_loops ex_pending ex_program) ! 1) ! 3)
       = \<lparr>use_domain_size = 3, dimensions = [0]\<rparr>"
proof -
  have k: "length (filter (\<lambda>l. iter_Rematerialize (iter l)) (LoopNestLoops ex_pending)) = 2"
    by (simp add: ex_pending_loops)
  have sh: "shape ex_pending
      = [(RangeType [], \<lparr>use_domain_size = 0, dimensions = []\<rparr>),
         (RangeType [(RangeType [], \<lparr>use_domain_size = 0, dimensions = []\<rparr>)],
          \<lparr>use_domain_size = 1, dimensions = [0]\<rparr>)]"
    and kd: "kind ex_pending = SairMapReduceOp"
    by (simp_all add: ex_pending_def)
  have ok: "fst (Rematerialize ex_main_loops ex_pending ex_program) = Success"
    using ex_rematerialize_succeeds by (metis fst_conv)
  let ?new = "snd (Rematerialize ex_main_loops ex_pending ex_program) ! 1"
  from Rematerialize_rebuilds_domain_shape [OF ex_program_split ex_program_distinct
      ex_rematerialize_succeeds k [symmetric]]
  obtain par where par: "ParallelDomain ex_pending = Inr par"
    and front: "\<forall>k<length par. shape ?new ! k = shape ex_pending ! k"
    and rest: "kind ex_pending \<noteq> SairCopyOp \<longrightarrow>
         length (shape ?new) = length (shape ex_pending) + 2
       \<and> (\<forall>k. length par \<le> k \<and> k < length (shape ex_pending) \<longrightarrow>
             dim_type (shape ?new ! (k + 2))
               = RangeType (HyperRectangular (length (shape ex_pending) + 2))
           \<and> use_domain_size (dependency_pattern (shape ?new ! (k + 2)))
               = use_domain_size (dependency_pattern (shape ex_pending ! k)) + 2
           \<and> dimensions (dependency_pattern (shape ?new ! (k + 2)))
               = map (\<lambda>d. if d < length par then d else d + 2)
                   (dimensions (dependency_pattern (shape ex_pending ! k))))"
    by auto
  have p: "par = [10]" using par by (simp add: ex_pending_parallel)
  have c1: "shape ?new ! 0 = shape ex_pending ! 0" using front p by simp
  have c2: "length (shape ?new) = 4" using rest kd by (simp add: sh)
  have "dim_type (shape ?new ! 3) = RangeType (HyperRectangular 4)
      \<and> use_domain_size (dependency_pattern (shape ?new ! 3)) = 3
      \<and> dimensions (dependency_pattern (shape ?new ! 3)) = [0]"
  proof -
    have "kind ex_pending \<noteq> SairCopyOp" by (simp add: kd)
    with rest have "length par \<le> 1 \<and> 1 < length (shape ex_pending) \<longrightarrow>
             dim_type (shape ?new ! (1 + 2))
               = RangeType (HyperRectangular (length (shape ex_pending) + 2))
           \<and> use_domain_size (dependency_pattern (shape ?new ! (1 + 2)))
               = use_domain_size (dependency_pattern (shape ex_pending ! 1)) + 2
           \<and> dimensions (dependency_pattern (shape ?new ! (1 + 2)))
               = map (\<lambda>d. if d < length par then d else d + 2)
                   (dimensions (dependency_pattern (shape ex_pending ! 1)))"
      by blast
    then show ?thesis using p by (simp add: sh dependency_pattern_def eval_nat_numeral)
  qed
  then have c3: "dim_type (shape ?new ! 3) = RangeType (HyperRectangular 4)
      \<and> dependency_pattern (shape ?new ! 3) = \<lparr>use_domain_size = 3, dimensions = [0]\<rparr>"
    by (cases "dependency_pattern (shape ?new ! 3)") simp
  show ?thesis using ok ex_pending_parallel c1 c2 c3 by blast
qed

text \<open>
  C6, as stated, fails on the example program: the reduction dimension of the map-reduce
  depends on the parallel dimension 0; after two dimensions have been inserted its
  descriptor still refers to dimension 0, not to 2, and its range type is not the one it
  had.
\<close>

theorem Rematerialize_shape_counterexample:
  "fst (Rematerialize ex_main_loops ex_pending ex_program) = Success
   \<and> shape ex_pending ! 1
       = (RangeType [(RangeType [], \<lparr>use_domain_size = 0, dimensions = []\<rparr>)],
          \<lparr>use_domain_size = 1, dimensions = [0]\<rparr>)
   \<and> shape (snd (Rematerialize ex_main_loops ex_pending ex_program) ! 1) ! 3
       = (RangeType (HyperRectangular 4), \<lparr>use_domain_size = 3, dimensions = [0]\<rparr>)
   \<and> dim_type (shape (snd (Rematerialize ex_main_loops ex_pending ex_program) ! 1) ! 3)
       \<noteq> dim_type (shape ex_pending ! 1)
   \<and> dimensions (dependency_pattern
         (shape (snd (Rematerialize ex_main_loops ex_pending ex_program) ! 1) ! 3))
       \<noteq> map (\<lambda>d. d + 2) (dimensions (dependency_pattern (shape ex_pending ! 1)))"
  by code_simp

section \<open>Rematerialization: dependent loops\<close>

lemma remat_before_Suc:
  "i < length ln \<Longrightarrow>
   remat_before ln (Suc i) = remat_before ln i + (if iter_Rematerialize (iter (ln ! i)) then 1 else 0)"
  by (simp add: remat_before_def take_Suc_conv_app_nth)

lemma remat_before_skip:
  assumes "m \<le> n" and "n \<le> length ln"
    and "\<forall>k. m \<le> k \<and> k < n \<longrightarrow> \<not> iter_Rematerialize (iter (ln ! k))"
  shows "remat_before ln n = remat_before ln m"
  using assms
proof (induction n rule: dec_induct)
  case base
  show ?case by simp
next
  case (step n)
  then show ?case by (simp add: remat_before_Suc)
qed

lemma remat_before_upt:
  assumes "i \<le> length ln"
  shows "remat_before ln i = length (filter (\<lambda>j. iter_Rematerialize (iter (ln ! j))) [0..<i])"
proof -
  have "filter (\<lambda>j. iter_Rematerialize (iter (take i ln ! j))) [0..<i]
      = filter (\<lambda>j. iter_Rematerialize (iter (ln ! j))) [0..<i]"
    by (rule filter_cong) auto
  then show ?thesis
    using remat_count [of "take i ln"] assms by (simp add: remat_before_def min_absorb2)
qed

lemma filter_upt_nth:
  assumes "Q i" and "i < n"
  shows "filter Q [0..<n] ! length (filter Q [0..<i]) = i"
proof -
  have "[0..<n] = [0..<i] @ i # [Suc i..<n]"
    using assms(2) upt_add_eq_append [of 0 i "n - i"] by (simp add: upt_conv_Cons)
  then have "filter Q [0..<n] = filter Q [0..<i] @ i # filter Q [Suc i..<n]"
    using assms(1) by simp
  then show ?thesis by simp
qed

lemma remat_index_nth:
  assumes "b < length ln" and "iter_Rematerialize (iter (ln ! b))"
  shows "filter (\<lambda>j. iter_Rematerialize (iter (ln ! j))) [0..<length ln] ! remat_before ln b = b"
    and "remat_before ln b < length (filter (\<lambda>l. iter_Rematerialize (iter l)) ln)"
proof -
  show "filter (\<lambda>j. iter_Rematerialize (iter (ln ! j))) [0..<length ln] ! remat_before ln b = b"
    using filter_upt_nth [of "\<lambda>j. iter_Rematerialize (iter (ln ! j))" b "length ln"] assms
    by (simp add: remat_before_upt)
  have "length (filter (\<lambda>l. iter_Rematerialize (iter l)) ln)
      = length (filter (\<lambda>l. iter_Rematerialize (iter l)) (take (Suc b) ln))
        + length (filter (\<lambda>l. iter_Rematerialize (iter l)) (drop (Suc b) ln))"
    by (metis append_take_drop_id filter_append length_append)
  then have "remat_before ln (Suc b) \<le> remat_before ln (length ln)"
    by (simp add: remat_before_def)
  then show "remat_before ln b < length (filter (\<lambda>l. iter_Rematerialize (iter l)) ln)"
    using assms by (simp add: remat_before_Suc) (simp add: remat_before_def)
qed


lemma rebuild_loop_nest_names:
  assumes "rebuild_loop_nest ml np k pos ln = Inr (ln', extra)"
  shows "map name ln' = map name ln"
  using rebuild_loop_nest_length [OF assms] rebuild_loop_nest_nth [OF assms]
  by (intro nth_equalityI) simp_all

lemma find_distinct_name:
  assumes "distinct (map name xs)" and "a < length xs"
  shows "find (\<lambda>attr. name attr = name (xs ! a)) xs = Some (xs ! a)"
proof -
  have "\<forall>j<a. name (xs ! j) \<noteq> name (xs ! a)"
  proof (intro allI impI)
    fix j assume "j < a"
    then have "map name xs ! j \<noteq> map name xs ! a"
      using assms nth_eq_iff_index_eq [of "map name xs" j a] by simp
    then show "name (xs ! j) \<noteq> name (xs ! a)" using \<open>j < a\<close> assms(2) by simp
  qed
  then show ?thesis using assms(2) unfolding find_Some_iff by blast
qed

text \<open>
  C4. Loops \<open>ni\<close> and \<open>nj\<close> are both to rematerialize on the operation, \<open>nj\<close> being the
  next such entry of the loop nest after \<open>ni\<close>, and the bounds recorded for \<open>nj\<close> depend
  on \<open>ni\<close> alone. After a successful \<^verbatim>\<open>Rematerialize\<close>, \<open>ni\<close> has a position \<open>P\<close> in the
  loop nest of the replacement (the number of parallel dimensions plus the number of
  entries to rematerialize before \<open>ni\<close>, so the number of parallel dimensions when \<open>ni\<close> is
  the first), \<open>nj\<close> has position \<open>P + 1\<close>, and the descriptor of dimension \<open>P + 1\<close> in the
  shape of the replacement has exactly one dependency, on dimension \<open>P\<close>: the name is
  resolved to the position \<open>ni\<close> has in the rebuilt loop nest.
\<close>

theorem Rematerialize_dependent_loops:
  assumes "p = pre @ op # post"
    and "distinct (map op_id p)"
    and "Rematerialize ml op p = (Success, p')"
    and "a < b" and "b < length (LoopNestLoops op)"
    and "LoopNestLoops op ! a = \<lparr>name = ni, iter = Remat\<rparr>"
    and "LoopNestLoops op ! b = \<lparr>name = nj, iter = Remat\<rparr>"
    and "\<forall>k. a < k \<and> k < b \<longrightarrow> \<not> iter_Rematerialize (iter (LoopNestLoops op ! k))"
    and "distinct (map name (LoopNestLoops op))"
    and "ml nj = Some bj" and "dependent_on bj = [ni]"
  shows "\<exists>par bi ln' P.
      ParallelDomain op = Inr par
    \<and> ml ni = Some bi
    \<and> P = length par + remat_before (LoopNestLoops op) a
    \<and> loop_nest (p' ! length pre) = Some ln'
    \<and> ln' ! a = \<lparr>name = ni, iter = Iter P (step_b bi)\<rparr>
    \<and> ln' ! b = \<lparr>name = nj, iter = Iter (P + 1) (step_b bj)\<rparr>
    \<and> dependency_pattern (shape (p' ! length pre) ! (P + 1))
        = \<lparr>use_domain_size = P + 1, dimensions = [P]\<rparr>"
proof -
  let ?ln = "LoopNestLoops op"
  let ?K = "length (filter (\<lambda>l. iter_Rematerialize (iter l)) ?ln)"
  from Rematerialize_replacement [OF assms(1-3)] obtain r new where
    r: "rebuild_attributes ml op = Inr r"
    and new: "RecreateOp (fresh_id p) op (r_new_types r) (r_extra_domain r) (r_loop_nest_array r)
         (r_domain_shape r) = Inr (Some new)"
    and at: "p' ! length pre = redirect_uses (op_id op) (Suc (fresh_id p)) (length (r_new_types r)) new"
    by blast
  let ?par = "r_parallel_domain r" and ?ln' = "r_loop_nest_array r"
  let ?inner = "RangeType (HyperRectangular (length (shape op) + ?K))"
  let ?loops = "filter (\<lambda>i. iter_Rematerialize (iter (?ln ! i))) [0..<length ?ln]"
  from rebuild_attributes_Inr [OF r] obtain inserted where
    par: "ParallelDomain op = Inr ?par"
    and rb: "rebuild_loop_nest ml (length ?par) ?K (length ?par) ?ln = Inr (?ln', r_extra_domain r)"
    and ins: "map_abort (inserted_dim ml ?ln' ?inner) ?loops = Inr inserted"
    and le: "length ?par \<le> length (shape op)"
    and ds: "r_domain_shape r =
       take (length ?par) (shape op) @ inserted
       @ map (\<lambda>dim. (?inner, ShiftRight ?K (length ?par) (dependency_pattern dim)))
           (drop (length ?par) (shape op))"
    by blast
  have a_len: "a < length ?ln" using assms(4,5) by simp
  define P where "P = length ?par + remat_before ?ln a"
  \<comment> \<open>the two entries of the rebuilt loop nest\<close>
  from rebuild_loop_nest_nth [OF rb a_len] assms(6) obtain bi where
    bi: "ml ni = Some bi" and ia: "iter (?ln' ! a) = Iter P (step_b bi)"
    and na: "name (?ln' ! a) = ni"
    by (auto simp: P_def)
  have rem_b: "remat_before ?ln b = remat_before ?ln a + 1"
  proof -
    have "remat_before ?ln b = remat_before ?ln (Suc a)"
      using assms(4,5,8) by (intro remat_before_skip) auto
    then show ?thesis using a_len assms(6) by (simp add: remat_before_Suc)
  qed
  from rebuild_loop_nest_nth [OF rb assms(5)] assms(7,10)
  have ib: "iter (?ln' ! b) = Iter (P + 1) (step_b bj)" and nb: "name (?ln' ! b) = nj"
    by (auto simp: P_def rem_b)
  have ea: "?ln' ! a = \<lparr>name = ni, iter = Iter P (step_b bi)\<rparr>" using ia na by simp
  have eb: "?ln' ! b = \<lparr>name = nj, iter = Iter (P + 1) (step_b bj)\<rparr>" using ib nb by simp
  \<comment> \<open>the shape dimension inserted for \<open>nj\<close>\<close>
  have names: "map name ?ln' = map name ?ln" using rb by (rule rebuild_loop_nest_names)
  have len': "length ?ln' = length ?ln" using rebuild_loop_nest_length [OF rb] by simp
  have "find (\<lambda>attr. name attr = name (?ln' ! a)) ?ln' = Some (?ln' ! a)"
    using assms(9) a_len by (intro find_distinct_name) (simp_all add: names len')
  then have dep: "dependee_dimension ?ln' ni = Inr P"
    using na ia by (simp add: dependee_dimension_def)
  have rem: "iter_Rematerialize (iter (?ln ! b))" using assms(7) by simp
  have idx: "?loops ! remat_before ?ln b = b" and lt: "remat_before ?ln b < ?K"
    using remat_index_nth [OF assms(5) rem] by simp_all
  have li: "length inserted = ?K" using map_abort_Inr [OF ins] by (simp add: remat_count)
  have "inserted_dim ml ?ln' ?inner (?loops ! remat_before ?ln b) = Inr (inserted ! remat_before ?ln b)"
    using map_abort_Inr [OF ins] lt by (simp add: remat_count)
  then have insb: "inserted ! remat_before ?ln b
      = (?inner, \<lparr>use_domain_size = P + 1, dimensions = [P]\<rparr>)"
    using nb ib assms(10,11) dep by (simp add: idx inserted_dim_def Let_def)
  have pos: "P + 1 = length ?par + remat_before ?ln b" by (simp add: P_def rem_b)
  have "r_domain_shape r ! (length ?par + remat_before ?ln b) = inserted ! remat_before ?ln b"
    using le lt li by (simp add: ds nth_append min_absorb2)
  moreover have "shape new ! (length ?par + remat_before ?ln b)
      = r_domain_shape r ! (length ?par + remat_before ?ln b)"
  proof (cases "kind op = SairCopyOp")
    case True
    from replacement_shape(2) [OF new r True] lt show ?thesis by simp
  next
    case False
    from replacement_shape(1) [OF new r False] show ?thesis by simp
  qed
  ultimately have "shape new ! (P + 1) = (?inner, \<lparr>use_domain_size = P + 1, dimensions = [P]\<rparr>)"
    using insb by (simp only: pos)
  then have "dependency_pattern (shape (p' ! length pre) ! (P + 1))
      = \<lparr>use_domain_size = P + 1, dimensions = [P]\<rparr>"
    using at by (simp add: dependency_pattern_def)
  moreover have "loop_nest (p' ! length pre) = Some ?ln'"
    using at RecreateOp_fields(3) [OF new par] by simp
  ultimately show ?thesis using par bi ea eb P_def by blast
qed

theorem Rematerialize_dependent_loops_witness:
  "fst (Rematerialize ex_main_loops ex_pending ex_program) = Success
   \<and> ParallelDomain ex_pending = Inr [10]
   \<and> (\<exists>ln'. loop_nest (snd (Rematerialize ex_main_loops ex_pending ex_program) ! 1) = Some ln'
         \<and> ln' ! 1 = \<lparr>name = ''i'', iter = Iter 1 1\<rparr>
         \<and> ln' ! 3 = \<lparr>name = ''j'', iter = Iter 2 3\<rparr>)
   \<and> dependency_pattern (shape (snd (Rematerialize ex_main_loops ex_pending ex_program) ! 1) ! 2)
       = \<lparr>use_domain_size = 2, dimensions = [1]\<rparr>"
proof -
  have between: "\<forall>k. 1 < k \<and> k < 3 \<longrightarrow> \<not> iter_Rematerialize (iter (LoopNestLoops ex_pending ! k))"
  proof (intro allI impI)
    fix k :: nat assume "1 < k \<and> k < 3"
    then have "k = 2" by simp
    then show "\<not> iter_Rematerialize (iter (LoopNestLoops ex_pending ! k))"
      by (simp add: ex_pending_loops)
  qed
  have "fst (Rematerialize ex_main_loops ex_pending ex_program) = Success"
    using ex_rematerialize_succeeds by (metis fst_conv)
  moreover from Rematerialize_dependent_loops [OF ex_program_split ex_program_distinct
      ex_rematerialize_succeeds, of 1 3 "''i''" "''j''"
      "\<lparr>range_b = 101, step_b = 3, dependent_on = [''i'']\<rparr>"] between
  have "ParallelDomain ex_pending = Inr [10]
   \<and> (\<exists>ln'. loop_nest (snd (Rematerialize ex_main_loops ex_pending ex_program) ! 1) = Some ln'
         \<and> ln' ! 1 = \<lparr>name = ''i'', iter = Iter 1 1\<rparr>
         \<and> ln' ! 3 = \<lparr>name = ''j'', iter = Iter 2 3\<rparr>)
   \<and> dependency_pattern (shape (snd (Rematerialize ex_main_loops ex_pending ex_program) ! 1) ! 2)
       = \<lparr>use_domain_size = 2, dimensions = [1]\<rparr>"
    by (auto simp: ex_pending_loops ex_pending_parallel remat_before_def ex_main_loops_def
        numeral_2_eq_2)
  ultimately show ?thesis by blast
qed

section \<open>Rematerialization: one loop without dependencies\<close>

lemma filter_by_index:
  "filter P xs = map ((!) xs) (filter (\<lambda>i. P (xs ! i)) [0..<length xs])"
proof -
  have "filter P (map ((!) xs) [0..<length xs]) = map ((!) xs) (filter (P \<circ> (!) xs) [0..<length xs])"
    by (rule filter_map)
  then show ?thesis by (simp add: map_nth comp_def)
qed

lemma filter_upt_single:
  assumes "a < n" and "\<forall>k<n. Q k \<longleftrightarrow> k = a"
  shows "filter Q [0..<n] = [a]"
proof -
  have "[0..<n] = [0..<a] @ a # [Suc a..<n]"
    using assms(1) upt_add_eq_append [of 0 a "n - a"] by (simp add: upt_conv_Cons)
  moreover have "filter Q [0..<a] = []" using assms by (auto simp: filter_empty_conv)
  moreover have "filter Q [Suc a..<n] = []" using assms by (auto simp: filter_empty_conv)
  moreover have "Q a" using assms by simp
  ultimately show ?thesis by simp
qed

lemma no_use_after_redirect:
  assumes "oid < fp" and "k < n"
  shows "\<not> uses_value (redirect_uses oid fp n x) (OpResult oid k)"
proof -
  have "redirect_value oid fp n v \<noteq> OpResult oid k" for v
    using assms by (cases v) (auto simp: redirect_value_def)
  then have "OpResult oid k \<notin> redirect_value oid fp n ` S" for S by (metis imageE)
  then show ?thesis by (simp add: uses_value_def redirect_uses_def)
qed


text \<open>
  C1. Operation \<open>op\<close> of the program is of a supported kind (its parallel domain is
  \<open>par\<close>), its shape describes at least its parallel dimensions, and it has one result if
  it is a copy. Its loop nest has exactly one entry to rematerialize, \<open>ni\<close> at index \<open>a\<close>,
  whose recorded bounds are the range \<open>R\<close>, step 1 and no dependencies. Then
  \<^verbatim>\<open>Rematerialize\<close> succeeds, and in the new program:
  \<^item> the replacement stands where \<open>op\<close> stood, is of the same kind, and its domain is that
    of \<open>op\<close> with \<open>R\<close> inserted after the parallel dimensions (at the end, for a copy or
    a map);
  \<^item> the entry \<open>ni\<close> of its loop nest is the concrete iterator at dimension
    \<open>length par\<close>, the first position past the parallel dimensions, with step 1;
  \<^item> one projection per result follows it, over the parallel domain \<open>par\<close>, projecting
    out exactly the dimension \<open>R\<close>, reading that result of the replacement, and of the
    type the result of \<open>op\<close> had;
  \<^item> every other operation is as before but for its operands: each use of result \<open>k\<close> of
    \<open>op\<close> is now a use of the result of projection \<open>k\<close>, and no use of a result of
    \<open>op\<close> is left;
  \<^item> \<open>op\<close> is no longer in the program.
\<close>

theorem Rematerialize_single_loop:
  assumes p: "p = pre @ op # post"
    and dist: "distinct (map op_id p)"
    and par: "ParallelDomain op = Inr par"
    and sh: "length par \<le> length (shape op)"
    and one: "kind op = SairCopyOp \<longrightarrow> length (result_types op) = 1"
    and a: "a < length (LoopNestLoops op)"
    and la: "LoopNestLoops op ! a = \<lparr>name = ni, iter = Remat\<rparr>"
    and only: "\<forall>k<length (LoopNestLoops op). k \<noteq> a \<longrightarrow> \<not> iter_Rematerialize (iter (LoopNestLoops op ! k))"
    and bounds: "ml ni = Some \<lparr>range_b = R, step_b = 1, dependent_on = []\<rparr>"
    and n: "n = length (result_types op)"
  shows "\<exists>p' ln'.
      Rematerialize ml op p = (Success, p')
    \<and> length p' = length p + n
    \<and> kind (p' ! length pre) = kind op
    \<and> op_id (p' ! length pre) = fresh_id p
    \<and> domain (p' ! length pre)
        = take (length par) (domain op) @ [R] @ drop (length par) (domain op)
    \<and> loop_nest (p' ! length pre) = Some ln'
    \<and> ln' ! a = \<lparr>name = ni, iter = Iter (length par) 1\<rparr>
    \<and> (\<forall>k<n. kind (p' ! (length pre + 1 + k)) = SairProjAnyOp
              \<and> op_id (p' ! (length pre + 1 + k)) = fresh_id p + 1 + k
              \<and> parallel_domain (p' ! (length pre + 1 + k)) = par
              \<and> other_domain (p' ! (length pre + 1 + k)) = [R]
              \<and> inputs (p' ! (length pre + 1 + k)) = [OpResult (fresh_id p) k]
              \<and> result_types (p' ! (length pre + 1 + k)) = [result_types op ! k])
    \<and> (\<forall>k<length pre. p' ! k = redirect_uses (op_id op) (fresh_id p + 1) n (pre ! k))
    \<and> (\<forall>k<length post.
          p' ! (length pre + 1 + n + k) = redirect_uses (op_id op) (fresh_id p + 1) n (post ! k))
    \<and> (\<forall>x\<in>set p'. \<forall>k<n. \<not> uses_value x (OpResult (op_id op) k))
    \<and> op_id op \<notin> op_id ` set p'"
proof -
  let ?ln = "LoopNestLoops op"
  let ?rem = "\<lambda>l. iter_Rematerialize (iter l)"
  let ?f = "fresh_id p" and ?oid = "op_id op"
  \<comment> \<open>one entry to rematerialize\<close>
  have ra: "?rem (?ln ! a)" using la by simp
  have idx: "filter (\<lambda>i. ?rem (?ln ! i)) [0..<length ?ln] = [a]"
    using a ra only by (intro filter_upt_single) blast+
  have fl: "filter ?rem ?ln = [?ln ! a]"
    using filter_by_index [of ?rem ?ln] idx by simp
  then have K: "length (filter ?rem ?ln) = 1" by simp
  \<comment> \<open>the first sweep succeeds\<close>
  have "\<forall>l\<in>set ?ln. ?rem l \<longrightarrow> ml (name l) \<noteq> None"
  proof (intro ballI impI)
    fix l assume "l \<in> set ?ln" "?rem l"
    then have "l \<in> set (filter ?rem ?ln)" by simp
    then have "l = ?ln ! a" using fl by simp
    then show "ml (name l) \<noteq> None" using la bounds by simp
  qed
  from rebuild_loop_nest_succeeds [OF this, of "length par" 1 "length par"]
  obtain ln' extra where rb: "rebuild_loop_nest ml (length par) 1 (length par) ?ln = Inr (ln', extra)"
    by blast
  have "\<forall>k. 0 \<le> k \<and> k < a \<longrightarrow> \<not> ?rem (?ln ! k)" using a only by auto
  from remat_before_skip [OF _ _ this] a have rb0: "remat_before ?ln a = 0"
    by (simp add: remat_before_def)
  from rebuild_loop_nest_nth [OF rb a] la bounds rb0
  have ea: "ln' ! a = \<lparr>name = ni, iter = Iter (length par) 1\<rparr>" by simp
  have "map Some extra = [Some R]"
    using rebuild_loop_nest_extra [OF rb] fl la bounds by simp
  then have extra: "extra = [R]" by (cases extra) auto
  \<comment> \<open>the second sweep succeeds\<close>
  let ?inner = "RangeType (HyperRectangular (length (shape op) + 1))"
  have ins: "map_abort (inserted_dim ml ln' ?inner) [a]
      = Inr [(?inner, \<lparr>use_domain_size = length par, dimensions = []\<rparr>)]"
    using ea bounds by (simp add: inserted_dim_def Let_def)
  let ?ds = "take (length par) (shape op)
       @ [(?inner, \<lparr>use_domain_size = length par, dimensions = []\<rparr>)]
       @ map (\<lambda>dim. (?inner, ShiftRight 1 (length par) (dependency_pattern dim)))
           (drop (length par) (shape op))"
  let ?tys = "AdaptTypesToShape (result_types op) (Prefix (length par + 1) ?ds)"
  let ?r = "\<lparr>r_parallel_domain = par, r_loop_nest_array = ln', r_extra_domain = extra,
             r_domain_shape = ?ds, r_new_types = ?tys\<rparr>"
  have r: "rebuild_attributes ml op = Inr ?r"
    using par rb ins sh by (simp add: rebuild_attributes_def Let_def idx K)
  have ntys: "length ?tys = n" using n by (simp add: AdaptTypesToShape_def)
  \<comment> \<open>the replacement is created\<close>
  have kinds: "kind op = SairCopyOp \<or> kind op = SairMapOp \<or> kind op = SairMapReduceOp"
    using par by (auto simp: ParallelDomain_def split: op_kind.splits)
  then obtain new where new: "RecreateOp ?f op ?tys extra ln' ?ds = Inr (Some new)"
    using one ntys n by (auto simp: RecreateOp_def)
  note fields = RecreateOp_fields [OF new par]
  let ?rho = "redirect_uses ?oid (Suc ?f) n"
  let ?projs = "map (\<lambda>i. make_projection op ?f ?r (Suc ?f + i) i) [0..<n]"
  let ?p' = "map ?rho pre @ ?rho new # ?projs @ map ?rho post"
  have run: "Rematerialize ml op p = (Success, ?p')"
    using Rematerialize_program [OF p dist r] new ntys by simp
  have lt: "?oid < ?f" using p by (simp add: fresh_id_greater)
  have at: "?p' ! length pre = ?rho new" by (simp add: nth_append)
  have dom: "domain (?rho new) = take (length par) (domain op) @ [R] @ drop (length par) (domain op)"
  proof (cases "kind op = SairMapReduceOp")
    case True
    then have "par = parallel_domain op" using par by (simp add: ParallelDomain_def)
    then show ?thesis
      using fields(4) fields(6) [OF True] extra by (simp add: domain_def)
  next
    case False
    then have "par = domain op" using par kinds by (auto simp: ParallelDomain_def)
    then show ?thesis
      using fields(4) fields(7) [OF False] extra by (simp add: domain_def)
  qed
  have proj: "?p' ! (length pre + 1 + k) = make_projection op ?f ?r (Suc ?f + k) k" if "k < n" for k
    using that by (simp add: nth_append)
  have before: "?p' ! k = ?rho (pre ! k)" if "k < length pre" for k
    using that by (simp add: nth_append)
  have after: "?p' ! (length pre + 1 + n + k) = ?rho (post ! k)" if "k < length post" for k
    using that by (simp add: nth_append)
  have nouse: "\<not> uses_value x (OpResult ?oid k)" if "x \<in> set ?p'" "k < n" for x k
  proof -
    from that(1) consider y where "x = ?rho y" | i where "x = make_projection op ?f ?r (Suc ?f + i) i"
      by auto
    then show ?thesis
    proof cases
      case 1
      then show ?thesis using no_use_after_redirect [of ?oid "Suc ?f" k n y] lt that(2) by simp
    next
      case 2
      then show ?thesis using lt by (simp add: uses_value_def make_projection_def)
    qed
  qed
  have erased: "?oid \<notin> op_id ` set ?p'"
  proof -
    have "?oid \<notin> op_id ` set pre" "?oid \<notin> op_id ` set post" using dist p by auto
    then show ?thesis using lt fields(1) by (auto simp: make_projection_def)
  qed
  have len: "length ?p' = length p + n" using p by simp
  show ?thesis
    apply (rule exI [of _ ?p'], rule exI [of _ ln'])
    apply (intro conjI)
    subgoal by (rule run)
    subgoal by (rule len)
    subgoal using at fields(2) by simp
    subgoal using at fields(1) by simp
    subgoal using at dom by simp
    subgoal using at fields(3) by simp
    subgoal by (rule ea)
    subgoal using proj extra by (simp add: make_projection_def)
    subgoal using before by simp
    subgoal using after by simp
    subgoal using nouse by blast
    subgoal by (rule erased)
    done
qed

theorem Rematerialize_single_loop_witness:
  "fst (Rematerialize ex_main_loops ex_single ex_program_single) = Success
   \<and> length (snd (Rematerialize ex_main_loops ex_single ex_program_single)) = 4
   \<and> kind (snd (Rematerialize ex_main_loops ex_single ex_program_single) ! 1) = SairMapReduceOp
   \<and> domain (snd (Rematerialize ex_main_loops ex_single ex_program_single) ! 1) = [10, 100, 11]
   \<and> kind (snd (Rematerialize ex_main_loops ex_single ex_program_single) ! 2) = SairProjAnyOp
   \<and> other_domain (snd (Rematerialize ex_main_loops ex_single ex_program_single) ! 2) = [100]
   \<and> inputs (snd (Rematerialize ex_main_loops ex_single ex_program_single) ! 2) = [OpResult 4 0]
   \<and> result_types (snd (Rematerialize ex_main_loops ex_single ex_program_single) ! 2)
       = result_types ex_single
   \<and> inputs (snd (Rematerialize ex_main_loops ex_single ex_program_single) ! 3) = [OpResult 5 0]
   \<and> 2 \<notin> op_id ` set (snd (Rematerialize ex_main_loops ex_single ex_program_single))"
proof -
  have split: "ex_program_single = [ex_source] @ ex_single # [ex_user]"
    by (simp add: ex_program_single_def)
  have dist: "distinct (map op_id ex_program_single)"
    by (simp add: ex_program_single_def ex_source_def ex_single_def ex_pending_def ex_user_def)
  have par: "ParallelDomain ex_single = Inr [10]"
    by (simp add: ParallelDomain_def ex_single_def ex_pending_def)
  have loops: "LoopNestLoops ex_single
      = [\<lparr>name = ''a'', iter = Iter 0 1\<rparr>, \<lparr>name = ''i'', iter = Remat\<rparr>,
         \<lparr>name = ''r'', iter = Iter 1 2\<rparr>]"
    by (simp add: LoopNestLoops_def ex_single_def)
  have only: "\<forall>k<length (LoopNestLoops ex_single). k \<noteq> 1 \<longrightarrow>
      \<not> iter_Rematerialize (iter (LoopNestLoops ex_single ! k))"
    by (auto simp: loops less_Suc_eq eval_nat_numeral)
  have fresh: "fresh_id ex_program_single = 4"
    by (simp add: fresh_id_def ex_program_single_def ex_source_def ex_single_def ex_pending_def
        ex_user_def)
  have tys: "length (result_types ex_single) = 1" "op_id ex_single = 2"
    "domain ex_single = [10, 11]" "kind ex_single = SairMapReduceOp"
    "result_types ex_single = [result_types ex_single ! 0]"
    by (simp_all add: ex_single_def ex_pending_def domain_def)
  have user: "inputs ex_user = [OpResult 2 0]" by (simp add: ex_user_def)
  have sh: "length [10::nat] \<le> length (shape ex_single)"
    and one: "kind ex_single = SairCopyOp \<longrightarrow> length (result_types ex_single) = 1"
    by (simp_all add: ex_single_def ex_pending_def)
  have a: "1 < length (LoopNestLoops ex_single)"
    and la: "LoopNestLoops ex_single ! 1 = \<lparr>name = ''i'', iter = Remat\<rparr>"
    by (simp_all add: loops)
  have bounds: "ex_main_loops ''i'' = Some \<lparr>range_b = 100, step_b = 1, dependent_on = []\<rparr>"
    by (simp add: ex_main_loops_def)
  from Rematerialize_single_loop [where ml = ex_main_loops and ni = "''i''",
      OF split dist par sh one a la only bounds tys(1) [symmetric]]
  obtain p' where run: "Rematerialize ex_main_loops ex_single ex_program_single = (Success, p')"
    and len: "length p' = length ex_program_single + 1"
    and new: "kind (p' ! length [ex_source]) = kind ex_single"
      "domain (p' ! length [ex_source])
        = take (length [10::nat]) (domain ex_single) @ [100] @ drop (length [10::nat]) (domain ex_single)"
    and projs: "\<forall>k<1. kind (p' ! (length [ex_source] + 1 + k)) = SairProjAnyOp
              \<and> op_id (p' ! (length [ex_source] + 1 + k)) = fresh_id ex_program_single + 1 + k
              \<and> parallel_domain (p' ! (length [ex_source] + 1 + k)) = [10]
              \<and> other_domain (p' ! (length [ex_source] + 1 + k)) = [100]
              \<and> inputs (p' ! (length [ex_source] + 1 + k)) = [OpResult (fresh_id ex_program_single) k]
              \<and> result_types (p' ! (length [ex_source] + 1 + k)) = [result_types ex_single ! k]"
    and rest: "\<forall>k<length [ex_user].
          p' ! (length [ex_source] + 1 + 1 + k)
            = redirect_uses (op_id ex_single) (fresh_id ex_program_single + 1) 1 ([ex_user] ! k)"
    and gone: "op_id ex_single \<notin> op_id ` set p'"
    by blast
  have l: "length p' = 4" using len by (simp add: ex_program_single_def)
  have n1: "kind (p' ! 1) = SairMapReduceOp" "domain (p' ! 1) = [10, 100, 11]"
    using new tys by simp_all
  from projs have "kind (p' ! (length [ex_source] + 1 + 0)) = SairProjAnyOp
              \<and> other_domain (p' ! (length [ex_source] + 1 + 0)) = [100]
              \<and> inputs (p' ! (length [ex_source] + 1 + 0)) = [OpResult (fresh_id ex_program_single) 0]
              \<and> result_types (p' ! (length [ex_source] + 1 + 0)) = [result_types ex_single ! 0]"
    by blast
  then have pr: "kind (p' ! 2) = SairProjAnyOp" "other_domain (p' ! 2) = [100]"
    "inputs (p' ! 2) = [OpResult 4 0]" "result_types (p' ! 2) = result_types ex_single"
    using fresh tys(5) by (simp_all add: eval_nat_numeral)
  from rest have "p' ! (length [ex_source] + 1 + 1 + 0)
            = redirect_uses (op_id ex_single) (fresh_id ex_program_single + 1) 1 ([ex_user] ! 0)"
    by simp
  then have "p' ! 3 = redirect_uses 2 5 1 ex_user"
    using fresh tys(2) by (simp add: eval_nat_numeral)
  then have us: "inputs (p' ! 3) = [OpResult 5 0]"
    using user by (simp add: redirect_uses_def redirect_value_def)
  have g: "2 \<notin> op_id ` set p'" using gone tys(2) by simp
  show ?thesis using run l n1 pr us g by simp
qed

section \<open>Rematerialization: the other attributes of the replacement\<close>

text \<open>
  When \<^verbatim>\<open>Rematerialize\<close> succeeds and inserts \<open>K\<close> dimensions, the replacement has as
  many results as the operation, each with the element type it had and with the prefix of
  the new shape over the parallel and inserted dimensions as its shape; it keeps the
  memory space attribute; the access patterns are those of the operation, shifted by
  \<open>K\<close> from the number of parallel dimensions on for a map-reduce and as they were for a
  copy or a map; the body of a map or map-reduce is that of the operation with \<open>K\<close> index
  arguments inserted after those of the parallel dimensions.
\<close>

theorem Rematerialize_replacement_attributes:
  assumes "p = pre @ op # post"
    and "distinct (map op_id p)"
    and "Rematerialize ml op p = (Success, p')"
    and "K = length (filter (\<lambda>l. iter_Rematerialize (iter l)) (LoopNestLoops op))"
  shows "\<exists>par.
      ParallelDomain op = Inr par
    \<and> length (result_types (p' ! length pre)) = length (result_types op)
    \<and> (\<forall>k<length (result_types op).
          ElementType (result_types (p' ! length pre) ! k) = ElementType (result_types op ! k)
        \<and> Shape (result_types (p' ! length pre) ! k)
            = take (length par + K) (shape (p' ! length pre)))
    \<and> memory_space (p' ! length pre) = memory_space op
    \<and> access_pattern_array (p' ! length pre)
        = (if kind op = SairMapReduceOp
           then map (ShiftRight K (length par)) (access_pattern_array op)
           else access_pattern_array op)
    \<and> body (p' ! length pre)
        = (if kind op = SairCopyOp then None
           else map_option
                  (\<lambda>b. b\<lparr>arguments := take (length par) (arguments b) @ replicate K IndexType
                                        @ drop (length par) (arguments b)\<rparr>) (body op))"
proof -
  from Rematerialize_replacement [OF assms(1-3)] obtain r new where
    r: "rebuild_attributes ml op = Inr r"
    and new: "RecreateOp (fresh_id p) op (r_new_types r) (r_extra_domain r) (r_loop_nest_array r)
         (r_domain_shape r) = Inr (Some new)"
    and at: "p' ! length pre = redirect_uses (op_id op) (Suc (fresh_id p)) (length (r_new_types r)) new"
    by blast
  let ?par = "r_parallel_domain r"
  from rebuild_attributes_Inr [OF r] have
    par: "ParallelDomain op = Inr ?par"
    and rb: "rebuild_loop_nest ml (length ?par) K (length ?par) (LoopNestLoops op)
       = Inr (r_loop_nest_array r, r_extra_domain r)"
    and tys: "r_new_types r = AdaptTypesToShape (result_types op)
        (Prefix (length ?par + K) (r_domain_shape r))"
    unfolding assms(4) by blast+
  have ex: "length (r_extra_domain r) = K"
    using rebuild_loop_nest_length [OF rb] by (simp add: assms(4))
  have kinds: "kind op = SairCopyOp \<or> kind op = SairMapOp \<or> kind op = SairMapReduceOp"
    using RecreateOp_fields(5) [OF new par] .
  have pd: "kind op \<noteq> SairMapReduceOp \<Longrightarrow> ?par = domain op"
    "kind op = SairMapReduceOp \<Longrightarrow> ?par = parallel_domain op"
    using par kinds by (auto simp: ParallelDomain_def)
  have sh: "take (length ?par + K) (shape new) = take (length ?par + K) (r_domain_shape r)"
  proof (cases "kind op = SairCopyOp")
    case True
    from replacement_shape(2) [OF new r True] show ?thesis by (simp add: assms(4))
  next
    case False
    from replacement_shape(1) [OF new r False] show ?thesis by simp
  qed
  have rt: "result_types new = r_new_types r"
  proof (cases "kind op = SairCopyOp")
    case True
    from RecreateOp_fields(8) [OF new par True] show ?thesis
      by (cases "r_new_types r") auto
  next
    case False
    from RecreateOp_fields(9) [OF new par False] show ?thesis by simp
  qed
  have ms: "memory_space new = memory_space op"
    and ap: "access_pattern_array new
        = (if kind op = SairMapReduceOp
           then map (ShiftRight K (length ?par)) (access_pattern_array op)
           else access_pattern_array op)"
    and bd: "body new
        = (if kind op = SairCopyOp then None
           else map_option
                  (\<lambda>b. b\<lparr>arguments := take (length ?par) (arguments b) @ replicate K IndexType
                                        @ drop (length ?par) (arguments b)\<rparr>) (body op))"
    using new kinds ex pd
    by (auto simp: RecreateOp_def AdaptAccessPatterns_def TakeBodyAdjustArguments_def
        split: if_splits)
  show ?thesis
    using par at rt tys sh ms ap bd
    by (simp add: AdaptTypesToShape_def Prefix_def)
qed

theorem Rematerialize_replacement_attributes_witness:
  "fst (Rematerialize ex_main_loops ex_pending ex_program) = Success
   \<and> ElementType (result_types (snd (Rematerialize ex_main_loops ex_pending ex_program) ! 1) ! 0)
       = ''f32''
   \<and> memory_space (snd (Rematerialize ex_main_loops ex_pending ex_program) ! 1) = Some [Some 1]
   \<and> access_pattern_array (snd (Rematerialize ex_main_loops ex_pending ex_program) ! 1)
       = [\<lparr>use_domain_size = 3, dimensions = [0]\<rparr>, \<lparr>use_domain_size = 4, dimensions = [0, 3]\<rparr>]
   \<and> body (snd (Rematerialize ex_main_loops ex_pending ex_program) ! 1)
       = Some \<lparr>arguments = [IndexType, IndexType, IndexType, IndexType, ScalarType ''f32'',
                              ScalarType ''f32''], block_ops = 0\<rparr>"
proof -
  have ok: "fst (Rematerialize ex_main_loops ex_pending ex_program) = Success"
    using ex_rematerialize_succeeds by (metis fst_conv)
  have k: "2 = length (filter (\<lambda>l. iter_Rematerialize (iter l)) (LoopNestLoops ex_pending))"
    by (simp add: ex_pending_loops)
  have f: "result_types ex_pending
      = [\<lparr>Shape = [(RangeType [], \<lparr>use_domain_size = 0, dimensions = []\<rparr>)], ElementType = ''f32''\<rparr>]"
    "memory_space ex_pending = Some [Some 1]" "kind ex_pending = SairMapReduceOp"
    "access_pattern_array ex_pending
      = [\<lparr>use_domain_size = 1, dimensions = [0]\<rparr>, \<lparr>use_domain_size = 2, dimensions = [0, 1]\<rparr>]"
    "body ex_pending = Some \<lparr>arguments = [IndexType, IndexType, ScalarType ''f32'', ScalarType ''f32''],
                   block_ops = 0\<rparr>"
    by (simp_all add: ex_pending_def)
  from Rematerialize_replacement_attributes [OF ex_program_split ex_program_distinct
      ex_rematerialize_succeeds k]
  show ?thesis using ok by (auto simp: ex_pending_parallel f ShiftRight_def eval_nat_numeral)
qed

section \<open>Unsupported kinds, and the names of dependencies\<close>

lemma Rematerialize_unsupported:
  assumes "kind op \<noteq> SairCopyOp" "kind op \<noteq> SairMapOp" "kind op \<noteq> SairMapReduceOp"
  shows "Rematerialize ml op p = (Aborted UnsupportedSairOp, p)"
  using assms
  by (cases "kind op") (simp_all add: Rematerialize_def rebuild_attributes_def ParallelDomain_def)

text \<open>
  \<^verbatim>\<open>Rematerialize\<close> returns failure for no operation at all: the only failure return
  is behind the \<^verbatim>\<open>Default\<close> case of the \<^verbatim>\<open>TypeSwitch\<close>, and \<^verbatim>\<open>ParallelDomain\<close> has stopped
  the call before for every kind that would take it.
\<close>

theorem Rematerialize_never_fails: "fst (Rematerialize ml op p) \<noteq> Failure"
proof (cases "rebuild_attributes ml op")
  case (Inl a)
  then show ?thesis by (simp add: Rematerialize_def)
next
  case (Inr r)
  from rebuild_attributes_Inr [OF Inr] have "ParallelDomain op = Inr (r_parallel_domain r)" by blast
  then have "kind op = SairCopyOp \<or> kind op = SairMapOp \<or> kind op = SairMapReduceOp"
    by (auto simp: ParallelDomain_def split: op_kind.splits)
  then show ?thesis
    using Inr by (auto simp: Rematerialize_def RecreateOp_def split: sum.splits option.splits)
qed

text \<open>
  C2. On an operation of a kind other than copy, map and map-reduce, \<^verbatim>\<open>Rematerialize\<close>
  does not return failure: \<^verbatim>\<open>ParallelDomain\<close>, called first, reaches its
  \<^verbatim>\<open>llvm_unreachable\<close>. Nothing has been changed by then, but the failure return behind
  the \<^verbatim>\<open>Default\<close> case of the \<^verbatim>\<open>TypeSwitch\<close> is never reached, for any operation.
\<close>

theorem Rematerialize_unsupported_kind_aborts:
  "Rematerialize ex_main_loops ex_unsupported ex_program_unsupported
     = (Aborted UnsupportedSairOp, ex_program_unsupported)
   \<and> fst (Rematerialize ex_main_loops ex_unsupported ex_program_unsupported) \<noteq> Failure"
proof -
  have "kind ex_unsupported = SairProjAnyOp" by (simp add: ex_unsupported_def)
  then show ?thesis by (simp add: Rematerialize_unsupported)
qed

text \<open>
  C3. The walk records, as the loops the bounds of \<open>C\<close> depend on, the name of the entry
  that stands in the loop nest at the index of the dimension depended on: the range of
  dimension 1 depends on dimension 0, entry 0 of the loop nest is \<open>A\<close>, and \<open>A\<close> is
  recorded, while the loop that iterates over dimension 0 is \<open>B\<close>.
\<close>

theorem CollectLoopBounds_names_by_position:
  "(case CollectLoopBounds [ex_outer, ex_inner] of
      Inl a \<Rightarrow> None
    | Inr (ml, pending) \<Rightarrow> map_option dependent_on (ml ''C'')) = Some [''A'']
   \<and> DependencyMask (shape ex_inner ! 1) = [0]
   \<and> loops_of_dimensions (LoopNestLoops ex_inner) (DependencyMask (shape ex_inner ! 1)) = [''B'']"
  by code_simp


section \<open>Collecting the loop bounds: what is recorded\<close>

text \<open>The walk, one loop-nest entry at a time.\<close>

lemma collect_loop_Inr:
  assumes "collect_loop cop l (ml, pe) = Inr (ml', pe')"
  shows "(iter l = Remat \<longrightarrow> ml' = ml \<and> pe' = pending_insert (op_id cop) pe)
       \<and> (\<forall>d s. iter l = Iter d s \<longrightarrow>
            pe' = pe \<and> d < length (domain cop) \<and> d < length (shape cop)
          \<and> (\<forall>b\<in>set (DependencyMask (shape cop ! d)). b < length (LoopNestLoops cop))
          \<and> ml' = try_emplace (name l)
                    \<lparr>range_b = domain cop ! d, step_b = s,
                     dependent_on = map (\<lambda>b. name (LoopNestLoops cop ! b))
                                      (DependencyMask (shape cop ! d))\<rparr> ml)"
proof (cases "iter l")
  case Remat
  with assms show ?thesis by (simp add: collect_loop_def)
next
  case (Iter d s)
  let ?f = "\<lambda>bit_idx. case nth_or_abort (LoopNestLoops cop) bit_idx of
                        Inl a \<Rightarrow> Inl a | Inr la \<Rightarrow> Inr (name la)"
  from assms Iter obtain deps where d: "d < length (domain cop)" "d < length (shape cop)"
    and m: "map_abort ?f (DependencyMask (shape cop ! d)) = Inr deps"
    and r: "ml' = try_emplace (name l) \<lparr>range_b = domain cop ! d, step_b = s, dependent_on = deps\<rparr> ml"
      "pe' = pe"
    by (auto simp: collect_loop_def nth_or_abort_def split: sum.splits if_splits)
  from map_abort_Inr [OF m] have len: "length deps = length (DependencyMask (shape cop ! d))"
    and each: "\<forall>k<length (DependencyMask (shape cop ! d)). ?f (DependencyMask (shape cop ! d) ! k) = Inr (deps ! k)"
    by simp_all
  have inrange: "\<forall>b\<in>set (DependencyMask (shape cop ! d)). b < length (LoopNestLoops cop)"
  proof
    fix b assume "b \<in> set (DependencyMask (shape cop ! d))"
    then obtain k where "k < length (DependencyMask (shape cop ! d))" "DependencyMask (shape cop ! d) ! k = b"
      by (auto simp: in_set_conv_nth)
    with each show "b < length (LoopNestLoops cop)"
      by (auto simp: nth_or_abort_def split: if_splits)
  qed
  have "deps = map (\<lambda>b. name (LoopNestLoops cop ! b)) (DependencyMask (shape cop ! d))"
  proof (rule nth_equalityI)
    show "length deps = length (map (\<lambda>b. name (LoopNestLoops cop ! b)) (DependencyMask (shape cop ! d)))"
      using len by simp
  next
    fix k assume "k < length deps"
    then have k: "k < length (DependencyMask (shape cop ! d))" using len by simp
    then have "DependencyMask (shape cop ! d) ! k < length (LoopNestLoops cop)"
      using inrange by simp
    with each k show "deps ! k = map (\<lambda>b. name (LoopNestLoops cop ! b)) (DependencyMask (shape cop ! d)) ! k"
      by (auto simp: nth_or_abort_def)
  qed
  with d r inrange Iter show ?thesis by simp
qed

lemma try_emplace_keeps: "ml k = Some b \<Longrightarrow> try_emplace k' v ml k = Some b"
  by (auto simp: try_emplace_def split: option.splits)

lemma collect_loop_keeps:
  assumes "collect_loop cop l (ml, pe) = Inr (ml', pe')" and "ml k = Some b"
  shows "ml' k = Some b"
  using collect_loop_Inr [OF assms(1)] assms(2)
  by (cases "iter l") (auto simp: try_emplace_keeps)

lemma collect_loops_keeps:
  "collect_loops cop ls (ml, pe) = Inr (ml', pe') \<Longrightarrow> ml k = Some b \<Longrightarrow> ml' k = Some b"
proof (induction ls arbitrary: ml pe)
  case Nil
  then show ?case by simp
next
  case (Cons l ls)
  then obtain ml1 pe1 where s: "collect_loop cop l (ml, pe) = Inr (ml1, pe1)"
    "collect_loops cop ls (ml1, pe1) = Inr (ml', pe')"
    by (auto split: sum.splits)
  from Cons.IH [OF s(2) collect_loop_keeps [OF s(1) Cons.prems(2)]] show ?case .
qed

lemma collect_op_keeps:
  "collect_op cop (ml, pe) = Inr (ml', pe') \<Longrightarrow> ml k = Some b \<Longrightarrow> ml' k = Some b"
  by (auto simp: collect_op_def split: option.splits dest: collect_loops_keeps)

lemma collect_walk_keeps:
  "collect_walk p (ml, pe) = Inr (ml', pe') \<Longrightarrow> ml k = Some b \<Longrightarrow> ml' k = Some b"
proof (induction p arbitrary: ml pe)
  case Nil
  then show ?case by simp
next
  case (Cons cop rest)
  then obtain ml1 pe1 where s: "collect_op cop (ml, pe) = Inr (ml1, pe1)"
    "collect_walk rest (ml1, pe1) = Inr (ml', pe')"
    by (auto split: sum.splits)
  from Cons.IH [OF s(2) collect_op_keeps [OF s(1) Cons.prems(2)]] show ?case .
qed

lemma collect_loops_append:
  "collect_loops cop (ls @ ls') st
   = (case collect_loops cop ls st of Inl a \<Rightarrow> Inl a | Inr st' \<Rightarrow> collect_loops cop ls' st')"
  by (induction ls arbitrary: st) (auto split: sum.splits)

lemma collect_walk_append:
  "collect_walk (p @ q) st
   = (case collect_walk p st of Inl a \<Rightarrow> Inl a | Inr st' \<Rightarrow> collect_walk q st')"
  by (induction p arbitrary: st) (auto split: sum.splits)

lemma try_emplace_other: "k' \<noteq> k \<Longrightarrow> try_emplace k' v ml k = ml k"
  by (auto simp: try_emplace_def split: option.splits)

lemma collect_loop_skips:
  assumes "collect_loop cop l (ml, pe) = Inr (ml', pe')"
    and "\<not> iter_Rematerialize (iter l) \<longrightarrow> name l \<noteq> k"
  shows "ml' k = ml k"
  using collect_loop_Inr [OF assms(1)] assms(2)
  by (cases "iter l") (auto simp: try_emplace_other)

lemma collect_loops_skips:
  "collect_loops cop ls (ml, pe) = Inr (ml', pe') \<Longrightarrow>
   \<forall>l\<in>set ls. \<not> iter_Rematerialize (iter l) \<longrightarrow> name l \<noteq> k \<Longrightarrow> ml' k = ml k"
proof (induction ls arbitrary: ml pe)
  case Nil
  then show ?case by simp
next
  case (Cons l ls)
  then obtain ml1 pe1 where s: "collect_loop cop l (ml, pe) = Inr (ml1, pe1)"
    "collect_loops cop ls (ml1, pe1) = Inr (ml', pe')"
    by (auto split: sum.splits)
  have "ml1 k = ml k" using collect_loop_skips [OF s(1)] Cons.prems(2) by simp
  moreover have "ml' k = ml1 k" using Cons.IH [OF s(2)] Cons.prems(2) by simp
  ultimately show ?case by simp
qed

lemma collect_walk_skips:
  "collect_walk p (ml, pe) = Inr (ml', pe') \<Longrightarrow>
   \<forall>y\<in>set p. \<forall>l\<in>set (LoopNestLoops y). \<not> iter_Rematerialize (iter l) \<longrightarrow> name l \<noteq> k \<Longrightarrow>
   ml' k = ml k"
proof (induction p arbitrary: ml pe)
  case Nil
  then show ?case by simp
next
  case (Cons cop rest)
  then obtain ml1 pe1 where s: "collect_op cop (ml, pe) = Inr (ml1, pe1)"
    "collect_walk rest (ml1, pe1) = Inr (ml', pe')"
    by (auto split: sum.splits)
  have "ml1 k = ml k"
  proof (cases "loop_nest cop")
    case None
    then show ?thesis using s(1) by (simp add: collect_op_def)
  next
    case (Some ls)
    then have "collect_loops cop ls (ml, pe) = Inr (ml1, pe1)" using s(1) by (simp add: collect_op_def)
    moreover have "\<forall>l\<in>set ls. \<not> iter_Rematerialize (iter l) \<longrightarrow> name l \<noteq> k"
      using Cons.prems(2) Some by (simp add: LoopNestLoops_def)
    ultimately show ?thesis by (rule collect_loops_skips)
  qed
  moreover have "ml' k = ml1 k" using Cons.IH [OF s(2)] Cons.prems(2) by simp
  ultimately show ?case by simp
qed

text \<open>
  When the walk returns, the bounds recorded for a loop name are those of its first
  concrete occurrence in program order: for the entry \<open>(k, dimension d, step s)\<close> of the
  loop nest of operation \<open>x\<close>, when no earlier operation and no earlier entry of \<open>x\<close>
  has a concrete iterator for \<open>k\<close>, the range is the domain value of \<open>x\<close> at \<open>d\<close>, the
  step is \<open>s\<close>, and the dependencies are the names of the entries that stand in the loop
  nest of \<open>x\<close> at the indices of the dependency mask of dimension \<open>d\<close>.
\<close>

theorem CollectLoopBounds_first_occurrence:
  assumes run: "CollectLoopBounds (pre @ x # post) = Inr (ml, pending)"
    and ln: "loop_nest x = Some ln" and i: "i < length ln"
    and entry: "ln ! i = \<lparr>name = k, iter = Iter d s\<rparr>"
    and pre: "\<forall>y\<in>set pre. \<forall>l\<in>set (LoopNestLoops y). \<not> iter_Rematerialize (iter l) \<longrightarrow> name l \<noteq> k"
    and before: "\<forall>j<i. \<not> iter_Rematerialize (iter (ln ! j)) \<longrightarrow> name (ln ! j) \<noteq> k"
  shows "ml k = Some \<lparr>range_b = domain x ! d, step_b = s,
                      dependent_on = map (\<lambda>b. name (ln ! b)) (DependencyMask (shape x ! d))\<rparr>"
proof -
  from run obtain ml1 pe1 ml2 pe2 where w1: "collect_walk pre (Map.empty, []) = Inr (ml1, pe1)"
    and w2: "collect_op x (ml1, pe1) = Inr (ml2, pe2)"
    and w3: "collect_walk post (ml2, pe2) = Inr (ml, pending)"
    by (auto simp: CollectLoopBounds_def collect_walk_append split: sum.splits)
  have n1: "ml1 k = None" using collect_walk_skips [OF w1 pre] by simp
  have split: "ln = take i ln @ ln ! i # drop (Suc i) ln"
    using i by (simp add: id_take_nth_drop)
  from w2 ln have "collect_loops x (take i ln @ ln ! i # drop (Suc i) ln) (ml1, pe1) = Inr (ml2, pe2)"
    using split by (simp add: collect_op_def)
  then obtain ma pa mb pb where l1: "collect_loops x (take i ln) (ml1, pe1) = Inr (ma, pa)"
    and l2: "collect_loop x (ln ! i) (ma, pa) = Inr (mb, pb)"
    and l3: "collect_loops x (drop (Suc i) ln) (mb, pb) = Inr (ml2, pe2)"
    by (auto simp: collect_loops_append split: sum.splits)
  have "\<forall>l\<in>set (take i ln). \<not> iter_Rematerialize (iter l) \<longrightarrow> name l \<noteq> k"
  proof
    fix l assume "l \<in> set (take i ln)"
    then obtain j where "j < i" "l = ln ! j" using i by (auto simp: in_set_conv_nth)
    then show "\<not> iter_Rematerialize (iter l) \<longrightarrow> name l \<noteq> k" using before by blast
  qed
  from collect_loops_skips [OF l1 this] n1 have na: "ma k = None" by simp
  let ?b = "\<lparr>range_b = domain x ! d, step_b = s,
             dependent_on = map (\<lambda>b. name (ln ! b)) (DependencyMask (shape x ! d))\<rparr>"
  from collect_loop_Inr [OF l2] entry ln have "mb = try_emplace k ?b ma"
    by (simp add: LoopNestLoops_def)
  then have "mb k = Some ?b" using na by (simp add: try_emplace_def)
  from collect_walk_keeps [OF w3 collect_loops_keeps [OF l3 this]] show ?thesis .
qed

text \<open>
  Bounds that are recorded are never overwritten by the rest of the walk.
\<close>

theorem CollectLoopBounds_never_overwrites:
  assumes "collect_walk p (ml, pending) = Inr (ml', pending')" and "ml k = Some b"
  shows "ml' k = Some b"
  using assms by (rule collect_walk_keeps)

lemma pending_insert_set:
  "set (pending_insert x xs) = insert x (set xs)" "distinct xs \<Longrightarrow> distinct (pending_insert x xs)"
  by (auto simp: pending_insert_def)

lemma collect_loops_pending:
  "collect_loops cop ls (ml, pe) = Inr (ml', pe') \<Longrightarrow> distinct pe \<Longrightarrow>
   distinct pe' \<and> set pe' = set pe \<union> (if \<exists>l\<in>set ls. iter_Rematerialize (iter l) then {op_id cop} else {})"
proof (induction ls arbitrary: ml pe)
  case Nil
  then show ?case by simp
next
  case (Cons l ls)
  then obtain ml1 pe1 where s: "collect_loop cop l (ml, pe) = Inr (ml1, pe1)"
    "collect_loops cop ls (ml1, pe1) = Inr (ml', pe')"
    by (auto split: sum.splits)
  have one: "distinct pe1 \<and> set pe1 = set pe \<union> (if iter_Rematerialize (iter l) then {op_id cop} else {})"
    using collect_loop_Inr [OF s(1)] Cons.prems(2)
    by (cases "iter l") (auto simp: pending_insert_set)
  with Cons.IH [OF s(2)] show ?case by auto
qed

lemma collect_walk_pending:
  "collect_walk p (ml, pe) = Inr (ml', pe') \<Longrightarrow> distinct pe \<Longrightarrow>
   distinct pe' \<and>
   set pe' = set pe \<union> {op_id x |x. x \<in> set p \<and> (\<exists>l\<in>set (LoopNestLoops x). iter_Rematerialize (iter l))}"
proof (induction p arbitrary: ml pe)
  case Nil
  then show ?case by simp
next
  case (Cons cop rest)
  then obtain ml1 pe1 where s: "collect_op cop (ml, pe) = Inr (ml1, pe1)"
    "collect_walk rest (ml1, pe1) = Inr (ml', pe')"
    by (auto split: sum.splits)
  have one: "distinct pe1 \<and> set pe1 = set pe \<union>
      (if \<exists>l\<in>set (LoopNestLoops cop). iter_Rematerialize (iter l) then {op_id cop} else {})"
  proof (cases "loop_nest cop")
    case None
    then show ?thesis using s(1) Cons.prems(2) by (simp add: collect_op_def LoopNestLoops_def)
  next
    case (Some ls)
    then have "collect_loops cop ls (ml, pe) = Inr (ml1, pe1)" using s(1) by (simp add: collect_op_def)
    from collect_loops_pending [OF this Cons.prems(2)] Some show ?thesis
      by (simp add: LoopNestLoops_def)
  qed
  with Cons.IH [OF s(2)] show ?case by auto
qed

text \<open>
  When the walk returns, the pending set holds, once each, exactly the operations
  whose loop nest has an entry to rematerialize.
\<close>

theorem CollectLoopBounds_pending:
  assumes "CollectLoopBounds p = Inr (ml, pending)"
  shows "distinct pending
       \<and> set pending = {op_id x |x. x \<in> set p \<and> (\<exists>l\<in>set (LoopNestLoops x). iter_Rematerialize (iter l))}"
  using collect_walk_pending [of p Map.empty "[]" ml pending] assms
  by (simp add: CollectLoopBounds_def)

lemma ex_collect_returns:
  "\<exists>ml pending. CollectLoopBounds ([ex_outer] @ ex_inner # []) = Inr (ml, pending)"
proof -
  have "case CollectLoopBounds [ex_outer, ex_inner] of Inl a \<Rightarrow> False | Inr st \<Rightarrow> True"
    by code_simp
  then show ?thesis by (cases "CollectLoopBounds [ex_outer, ex_inner]") auto
qed

lemma ex_inner_loops:
  "loop_nest ex_inner = Some [\<lparr>name = ''A'', iter = Remat\<rparr>, \<lparr>name = ''B'', iter = Iter 0 1\<rparr>,
                              \<lparr>name = ''C'', iter = Iter 1 1\<rparr>]"
  by (simp add: ex_inner_def)

theorem CollectLoopBounds_first_occurrence_witness:
  "\<exists>ml pending. CollectLoopBounds [ex_outer, ex_inner] = Inr (ml, pending)
     \<and> ml ''C'' = Some \<lparr>range_b = 201, step_b = 1, dependent_on = [''A'']\<rparr>"
proof -
  from ex_collect_returns obtain ml pending where
    run: "CollectLoopBounds ([ex_outer] @ ex_inner # []) = Inr (ml, pending)" by blast
  have pre: "\<forall>y\<in>set [ex_outer]. \<forall>l\<in>set (LoopNestLoops y).
      \<not> iter_Rematerialize (iter l) \<longrightarrow> name l \<noteq> ''C''"
    by (simp add: ex_outer_def LoopNestLoops_def)
  have before: "\<forall>j<2. \<not> iter_Rematerialize (iter ([\<lparr>name = ''A'', iter = Remat\<rparr>,
      \<lparr>name = ''B'', iter = Iter 0 1\<rparr>, \<lparr>name = ''C'', iter = Iter 1 1\<rparr>] ! j)) \<longrightarrow>
      name ([\<lparr>name = ''A'', iter = Remat\<rparr>, \<lparr>name = ''B'', iter = Iter 0 1\<rparr>,
             \<lparr>name = ''C'', iter = Iter 1 1\<rparr>] ! j) \<noteq> ''C''"
    by (auto simp: less_Suc_eq eval_nat_numeral)
  have "ml ''C'' = Some \<lparr>range_b = domain ex_inner ! 1, step_b = 1,
      dependent_on = map (\<lambda>b. name ([\<lparr>name = ''A'', iter = Remat\<rparr>, \<lparr>name = ''B'', iter = Iter 0 1\<rparr>,
             \<lparr>name = ''C'', iter = Iter 1 1\<rparr>] ! b)) (DependencyMask (shape ex_inner ! 1))\<rparr>"
    by (rule CollectLoopBounds_first_occurrence [OF run ex_inner_loops _ _ pre before]) simp_all
  moreover have "domain ex_inner ! 1 = 201" "DependencyMask (shape ex_inner ! 1) = [0]"
    by (simp_all add: ex_inner_def domain_def DependencyMask_def dependency_pattern_def)
  ultimately show ?thesis using run by auto
qed

theorem CollectLoopBounds_never_overwrites_witness:
  "\<exists>ml pending.
     collect_walk [ex_outer, ex_inner]
       ([''B'' \<mapsto> \<lparr>range_b = 999, step_b = 5, dependent_on = []\<rparr>], []) = Inr (ml, pending)
     \<and> ml ''B'' = Some \<lparr>range_b = 999, step_b = 5, dependent_on = []\<rparr>"
proof -
  let ?st = "([''B'' \<mapsto> \<lparr>range_b = 999, step_b = 5, dependent_on = []\<rparr>], [])
               :: main_loops \<times> nat list"
  have "case collect_walk [ex_outer, ex_inner] ?st of Inl a \<Rightarrow> False | Inr st \<Rightarrow> True"
    by code_simp
  then obtain ml pending where run: "collect_walk [ex_outer, ex_inner] ?st = Inr (ml, pending)"
    by (cases "collect_walk [ex_outer, ex_inner] ?st") auto
  from CollectLoopBounds_never_overwrites [OF run, of "''B''"] run show ?thesis by simp
qed

theorem CollectLoopBounds_pending_witness:
  "\<exists>ml pending. CollectLoopBounds [ex_outer, ex_inner] = Inr (ml, pending)
     \<and> distinct pending \<and> set pending = {2}"
proof -
  from ex_collect_returns obtain ml pending where
    run: "CollectLoopBounds [ex_outer, ex_inner] = Inr (ml, pending)" by auto
  have no: "\<not> (\<exists>l\<in>set (LoopNestLoops ex_outer). iter_Rematerialize (iter l))"
    and yes: "\<exists>l\<in>set (LoopNestLoops ex_inner). iter_Rematerialize (iter l)"
    and id: "op_id ex_inner = 2"
    by (simp_all add: ex_outer_def ex_inner_def LoopNestLoops_def)
  have "{op_id x |x. x \<in> set [ex_outer, ex_inner]
          \<and> (\<exists>l\<in>set (LoopNestLoops x). iter_Rematerialize (iter l))} = {2}"
    using no yes id by auto
  with CollectLoopBounds_pending [OF run] run show ?thesis by auto
qed

end
